theory Spec2Isabelle
  imports Complex_Main "HOL-Library.Sublist" "HOL-Library.Char_ord"
    "HOL-Library.List_Lexorder" "HOL-Library.Multiset"
begin

section \<open>JavaScript strings\<close>

text \<open>
  A JavaScript string is a sequence of code units; it is modelled as a \<^typ>\<open>string\<close>,
  so the model covers the strings whose code units are below 256. The operations below
  are the library functions the sources call, with their ECMAScript meaning.
\<close>

text \<open>
  \<^verbatim>\<open>s.split(sep)\<close> for a string separator: the pieces between the successive leftmost
  occurrences of \<open>sep\<close>, searched from the end of the previous occurrence. The result
  is never empty when \<open>sep\<close> is not empty; an empty separator splits into code units.
\<close>

function js_split :: "string \<Rightarrow> string \<Rightarrow> string list" where
  "js_split sep s =
     (if sep = [] then map (\<lambda>c. [c]) s
      else if prefix sep s then [] # js_split sep (drop (length sep) s)
      else (case s of
              [] \<Rightarrow> [[]]
            | c # cs \<Rightarrow> (case js_split sep cs of
                          [] \<Rightarrow> [[c]]
                        | p # ps \<Rightarrow> (c # p) # ps)))"
  by pat_completeness auto
termination
  by (relation "measure (\<lambda>(sep, s). length s)") (auto simp: prefix_def)

declare js_split.simps [simp del]

text \<open>\<^verbatim>\<open>pieces.join(sep)\<close>.\<close>

fun js_join :: "string \<Rightarrow> string list \<Rightarrow> string" where
  "js_join sep [] = []"
| "js_join sep [p] = p"
| "js_join sep (p # q # ps) = p @ sep @ js_join sep (q # ps)"

text \<open>\<^verbatim>\<open>val || ''\<close> on a string: the empty string is the only falsy string.\<close>

definition or_empty :: "string \<Rightarrow> string" where
  "or_empty val = (if val \<noteq> [] then val else [])"

text \<open>
  White space as \<^verbatim>\<open>trim\<close> and \<^verbatim>\<open>trimStart\<close> see it, among the code units below 256:
  tab, line feed, vertical tab, form feed, carriage return, space, no-break space.
\<close>

definition is_ws :: "char \<Rightarrow> bool" where
  "is_ws c = (of_char c \<in> {9::nat, 10, 11, 12, 13, 32, 160})"

definition trimStart :: "string \<Rightarrow> string" where
  "trimStart s = dropWhile is_ws s"

definition trimEnd :: "string \<Rightarrow> string" where
  "trimEnd s = rev (dropWhile is_ws (rev s))"

definition trim :: "string \<Rightarrow> string" where
  "trim s = trimEnd (trimStart s)"

text \<open>\<^verbatim>\<open>s.startsWith(p)\<close> is \<^const>\<open>prefix\<close>, \<^verbatim>\<open>s.endsWith(p)\<close> is \<^const>\<open>suffix\<close>.\<close>

text \<open>\<^verbatim>\<open>s.indexOf(p)\<close>: the least index where \<open>p\<close> occurs, \<open>None\<close> for \<open>-1\<close>.\<close>

fun indexOf :: "string \<Rightarrow> string \<Rightarrow> nat option" where
  "indexOf [] p = (if p = [] then Some 0 else None)"
| "indexOf (c # cs) p =
     (if prefix p (c # cs) then Some 0
      else (case indexOf cs p of None \<Rightarrow> None | Some i \<Rightarrow> Some (Suc i)))"

text \<open>
  \<^verbatim>\<open>s.slice(start)\<close> and \<^verbatim>\<open>s.slice(start, end)\<close> for non-negative indices: indices
  beyond the length are clamped, and an end before the start gives the empty string.
\<close>

definition slice_from :: "string \<Rightarrow> nat \<Rightarrow> string" where
  "slice_from s start = drop start s"

definition slice :: "string \<Rightarrow> nat \<Rightarrow> nat \<Rightarrow> string" where
  "slice s start end = take (end - start) (drop start s)"

section \<open>TokenService\<close>

text \<open>
  \<^verbatim>\<open>variables\<close> is a \<^verbatim>\<open>Record<string, string>\<close>; \<^verbatim>\<open>Object.entries\<close> lists its
  entries in property order, each key once. The model takes that list of entries.
  \<^verbatim>\<open>forEach\<close> threads \<^verbatim>\<open>resolved\<close> through the entries in order.
\<close>

definition resolveVariables :: "string \<Rightarrow> (string \<times> string) list \<Rightarrow> string" where
  "resolveVariables text variables =
     fold (\<lambda>(key, val) resolved.
             js_join (or_empty val) (js_split (''{'' @ key @ ''}'') resolved))
          variables text"

section \<open>Placeholder detection (CreateView, detectedVariables)\<close>

text \<open>
  The loop \<^verbatim>\<open>while ((match = regex.exec(combined)) !== null)\<close> for the global regular
  expression \<^verbatim>\<open>/\{([^}]+)\}/g\<close>: the matches are found left to right, each search
  starting where the previous match ended. A match starts at an opening brace that
  is followed by a non-empty maximal run of characters other than the closing brace
  and then by a closing brace; the run is the captured group. \<open>regex_matches\<close> lists
  the captured groups of the successive matches.
\<close>

function regex_matches :: "string \<Rightarrow> string list" where
  "regex_matches [] = []"
| "regex_matches (c # cs) =
     (if c = CHR ''{'' then
        (let name = takeWhile (\<lambda>x. x \<noteq> CHR ''}'') cs;
             rest = dropWhile (\<lambda>x. x \<noteq> CHR ''}'') cs
         in if name \<noteq> [] \<and> rest \<noteq> [] then name # regex_matches (tl rest)
            else regex_matches cs)
      else regex_matches cs)"
  by pat_completeness auto
termination
proof (relation "measure length")
  fix c :: char and cs name rest
  assume "rest = dropWhile (\<lambda>x. x \<noteq> CHR ''}'') cs"
  then have "length rest \<le> length cs"
    by (simp add: length_dropWhile_le)
  then have "length (tl rest) \<le> length cs"
    by simp
  then show "(tl rest, c # cs) \<in> measure length" by simp
qed auto

text \<open>\<^verbatim>\<open>found.add(x)\<close> on a \<^verbatim>\<open>Set\<close>, which keeps insertion order and ignores repeats.\<close>

definition set_add :: "string list \<Rightarrow> string \<Rightarrow> string list" where
  "set_add found x = (if x \<in> set found then found else found @ [x])"

definition detectedVariables :: "string \<Rightarrow> string \<Rightarrow> string list" where
  "detectedVariables systemPrompt userPrompt =
     (let combined = systemPrompt @ userPrompt
      in fold (\<lambda>m found. set_add found m) (regex_matches combined) [])"

section \<open>Well-formed templates and the resolver of the specification\<close>

text \<open>
  A template has flat braces when no opening brace is followed by another opening
  brace before the next closing brace: \<open>inside\<close> records whether an opening brace
  is pending.
\<close>

fun flat_from :: "bool \<Rightarrow> string \<Rightarrow> bool" where
  "flat_from inside [] = True"
| "flat_from inside (c # cs) =
     (if c = CHR ''{'' then \<not> inside \<and> flat_from True cs
      else if c = CHR ''}'' then flat_from False cs
      else flat_from inside cs)"

definition flat_braces :: "string \<Rightarrow> bool" where
  "flat_braces s = flat_from False s"

text \<open>
  The resolver as the specification words it, with a placeholder whose name is not
  a key left in place: the text is scanned for placeholders as \<open>regex_matches\<close>
  scans it, and each placeholder is replaced by the value of its name, all at once.
  This definition follows the specification, not the source; \<open>resolveVariables\<close>
  above is the source.
\<close>

function spec_resolve :: "(string \<times> string) list \<Rightarrow> string \<Rightarrow> string" where
  "spec_resolve vars [] = []"
| "spec_resolve vars (c # cs) =
     (if c = CHR ''{'' then
        (let name = takeWhile (\<lambda>x. x \<noteq> CHR ''}'') cs;
             rest = dropWhile (\<lambda>x. x \<noteq> CHR ''}'') cs
         in if name \<noteq> [] \<and> rest \<noteq> [] then
              (case map_of vars name of
                 Some val \<Rightarrow> val
               | None \<Rightarrow> CHR ''{'' # name @ ''}'') @ spec_resolve vars (tl rest)
            else c # spec_resolve vars cs)
      else c # spec_resolve vars cs)"
  by pat_completeness auto
termination
proof (relation "measure (\<lambda>(vars, s). length s)")
  fix vars :: "(string \<times> string) list" and c :: char and cs name rest
  assume "rest = dropWhile (\<lambda>x. x \<noteq> CHR ''}'') cs"
  then have "length rest \<le> length cs"
    by (simp add: length_dropWhile_le)
  then have "length (tl rest) \<le> length cs"
    by simp
  then show "((vars, tl rest), (vars, c # cs)) \<in> measure (\<lambda>(vars, s). length s)"
    by simp
qed auto

text \<open>
  One pass of \<open>resolveVariables\<close> written as a single scan: \<open>split\<close> followed by
  \<open>join\<close> replaces the leftmost occurrences of the separator, each search starting
  after the previous occurrence (\<open>join_split_replace\<close> below).
\<close>

function replace_all :: "string \<Rightarrow> string \<Rightarrow> string \<Rightarrow> string" where
  "replace_all p v s =
     (if p \<noteq> [] \<and> prefix p s then v @ replace_all p v (drop (length p) s)
      else (case s of [] \<Rightarrow> [] | c # cs \<Rightarrow> c # replace_all p v cs))"
  by pat_completeness auto
termination
  by (relation "measure (\<lambda>(p, v, s). length s)") (auto simp: prefix_def)

declare replace_all.simps [simp del]

abbreviation ph :: "string \<Rightarrow> string" where
  "ph k \<equiv> CHR ''{'' # k @ ''}''"

abbreviation notclose :: "char \<Rightarrow> bool" where
  "notclose \<equiv> (\<lambda>x. x \<noteq> CHR ''}'')"

section \<open>The reasoning splitter (CreateView, parsedOutput)\<close>

record parsed =
  thought :: "string option"
  content :: string

text \<open>\<open>thought = None\<close> is \<^verbatim>\<open>thought: null\<close>. The constants 7 and 8 are the source's.\<close>

definition parsedOutput :: "string \<Rightarrow> parsed" where
  "parsedOutput output =
     (if output = [] then \<lparr>thought = None, content = []\<rparr>
      else if \<not> prefix ''<think>'' (trimStart output) then
        \<lparr>thought = None, content = output\<rparr>
      else
        (case indexOf output ''</think>'' of
           None \<Rightarrow> \<lparr>thought = Some (trim (slice_from output 7)), content = []\<rparr>
         | Some thinkEnd \<Rightarrow>
             \<lparr>thought = Some (trim (slice output 7 thinkEnd)),
              content = trim (slice_from output (thinkEnd + 8))\<rparr>))"

section \<open>JSON values and property reads\<close>

text \<open>
  The values \<^verbatim>\<open>JSON.parse\<close> and \<^verbatim>\<open>response.json()\<close> produce. An object holds its
  own properties, each key once, in an association list; numbers are the finite
  values they denote. \<^verbatim>\<open>undefined\<close> is \<open>None\<close> in an optional value.
\<close>

datatype json =
    JNull
  | JBool bool
  | JNumber rat
  | JString string
  | JArray "json list"
  | JObject "(string \<times> json) list"

text \<open>
  \<^verbatim>\<open>v.name\<close> for one of the names the sources read (\<^verbatim>\<open>choices\<close>, \<^verbatim>\<open>usage\<close>,
  \<^verbatim>\<open>data\<close>, \<^verbatim>\<open>models\<close>, \<^verbatim>\<open>id\<close>, \<^verbatim>\<open>name\<close>): reading a property of \<^verbatim>\<open>null\<close>
  throws a TypeError, \<open>Inl\<close> with the property's name; only an object has such a
  property.
\<close>

definition read_prop :: "json \<Rightarrow> string \<Rightarrow> string + json option" where
  "read_prop v name =
     (case v of
        JNull \<Rightarrow> Inl name
      | JObject kvs \<Rightarrow> Inr (map_of kvs name)
      | _ \<Rightarrow> Inr None)"

text \<open>\<^verbatim>\<open>v?.name\<close>: \<^verbatim>\<open>undefined\<close> when \<open>v\<close> is \<^verbatim>\<open>undefined\<close> or \<^verbatim>\<open>null\<close>.\<close>

definition opt_prop :: "json option \<Rightarrow> string \<Rightarrow> json option" where
  "opt_prop v name =
     (case v of
        Some (JObject kvs) \<Rightarrow> map_of kvs name
      | _ \<Rightarrow> None)"

text \<open>
  \<^verbatim>\<open>v?.[0]\<close>: the first element of an array, the first code unit of a string, the
  property \<^verbatim>\<open>"0"\<close> of an object.
\<close>

definition opt_index0 :: "json option \<Rightarrow> json option" where
  "opt_index0 v =
     (case v of
        Some (JArray xs) \<Rightarrow> (case xs of [] \<Rightarrow> None | x # _ \<Rightarrow> Some x)
      | Some (JString s) \<Rightarrow> (case s of [] \<Rightarrow> None | c # _ \<Rightarrow> Some (JString [c]))
      | Some (JObject kvs) \<Rightarrow> map_of kvs ''0''
      | _ \<Rightarrow> None)"

fun truthy :: "json \<Rightarrow> bool" where
  "truthy JNull = False"
| "truthy (JBool b) = b"
| "truthy (JNumber r) = (r \<noteq> 0)"
| "truthy (JString s) = (s \<noteq> [])"
| "truthy (JArray xs) = True"
| "truthy (JObject kvs) = True"

text \<open>\<^verbatim>\<open>v || ''\<close> on a value that may be \<^verbatim>\<open>undefined\<close>.\<close>

definition or_empty_string :: "json option \<Rightarrow> json" where
  "or_empty_string v =
     (case v of
        None \<Rightarrow> JString []
      | Some x \<Rightarrow> if truthy x then x else JString [])"

text \<open>\<^verbatim>\<open>msg || fallback\<close> on strings.\<close>

definition or_else :: "string \<Rightarrow> string \<Rightarrow> string" where
  "or_else msg fallback = (if msg \<noteq> [] then msg else fallback)"

text \<open>
  ToString, as \<^verbatim>\<open>new Error(v)\<close> and the default \<^verbatim>\<open>sort\<close> apply it; the text of a
  number is the runtime's (\<open>num\<close>). An array joins the texts of its elements with
  commas, \<^verbatim>\<open>null\<close> elements giving the empty text; an object is taken to have no
  \<^verbatim>\<open>toString\<close> or \<^verbatim>\<open>valueOf\<close> property of its own.
\<close>

fun js_ToString :: "(rat \<Rightarrow> string) \<Rightarrow> json \<Rightarrow> string" where
  "js_ToString num JNull = ''null''"
| "js_ToString num (JBool b) = (if b then ''true'' else ''false'')"
| "js_ToString num (JNumber r) = num r"
| "js_ToString num (JString s) = s"
| "js_ToString num (JArray xs) =
     js_join '','' (map (\<lambda>x. if x = JNull then [] else js_ToString num x) xs)"
| "js_ToString num (JObject kvs) = ''[object Object]''"

text \<open>The decimal text of a non-negative integer, as a template literal prints it.\<close>

function show_nat :: "nat \<Rightarrow> string" where
  "show_nat n =
     (if n < 10 then [char_of (48 + n)]
      else show_nat (n div 10) @ [char_of (48 + n mod 10)])"
  by pat_completeness auto
termination
  by (relation "measure id") auto

declare show_nat.simps [simp del]

text \<open>
  The default \<^verbatim>\<open>sort()\<close>: \<^verbatim>\<open>undefined\<close> elements go last, the others are ordered by
  the code units of their ToString, and the sort is stable.
\<close>

definition js_sort :: "(rat \<Rightarrow> string) \<Rightarrow> json option list \<Rightarrow> json option list" where
  "js_sort num xs =
     map Some (sort_key (js_ToString num) (List.map_filter id xs))
     @ filter (\<lambda>x. x = None) xs"

text \<open>\<^verbatim>\<open>s.replace(p, v)\<close> for a string pattern: the first occurrence only.\<close>

fun js_replace :: "string \<Rightarrow> string \<Rightarrow> string \<Rightarrow> string" where
  "js_replace [] p v = (if p = [] then v else [])"
| "js_replace (c # cs) p v =
     (if prefix p (c # cs) then v @ drop (length p) (c # cs)
      else c # js_replace cs p v)"

section \<open>Types (types.ts) and the network\<close>

record ApiConfig =
  cfg_id :: string
  cfg_name :: string
  baseUrl :: string
  apiKey :: string
  models :: "string list"

datatype role = System | User | Assistant

record ChatMessage =
  msg_role :: role
  msg_content :: string

text \<open>
  \<^verbatim>\<open>CompletionResponse\<close> and \<^verbatim>\<open>StreamChunk\<close>; an optional field that is absent is
  \<open>None\<close>. The content and the usage are whatever JSON value the server sent.
\<close>

record CompletionResponse =
  resp_content :: json
  resp_error :: "string option"
  resp_usage :: "json option"

record StreamChunk =
  chunk_content :: "json option"
  chunk_usage :: "json option"
  chunk_error :: "string option"

text \<open>
  A request as \<^verbatim>\<open>fetch\<close> receives it; the body is the object given to
  \<^verbatim>\<open>JSON.stringify\<close>.
\<close>

record request_body =
  body_model :: string
  body_messages :: "ChatMessage list"
  body_temperature :: rat
  body_stream :: "bool option"

record request =
  url :: string
  req_method :: string
  headers :: "(string \<times> string) list"
  body :: "request_body option"

text \<open>
  \<^verbatim>\<open>reader.read()\<close> resolves with a chunk of decoded text or rejects with an error
  (its message); when the list is exhausted it resolves with \<^verbatim>\<open>done\<close>.
  The streaming decoder makes the decoded chunks concatenate to the decoded body.
\<close>

datatype read_result = Chunk string | ReadFailure string

text \<open>
  A response: \<open>json_result\<close> is what \<^verbatim>\<open>response.json()\<close> resolves to (\<open>Inr\<close>) or the
  message of the error it rejects with (\<open>Inl\<close>).
\<close>

record response =
  ok :: bool
  status :: nat
  json_result :: "string + json"
  has_body :: bool
  reads :: "read_result list"

datatype fetch_result = Rejected string | Response response

text \<open>
  What the sources take from the platform: the network, \<^verbatim>\<open>JSON.parse\<close> (\<open>None\<close> when
  it throws), the text of a number, and the message of the TypeError for reading
  a property of \<^verbatim>\<open>null\<close>.
\<close>

record runtime =
  fetch :: "request \<Rightarrow> fetch_result"
  JSON_parse :: "string \<Rightarrow> json option"
  Number_toString :: "rat \<Rightarrow> string"
  null_read_message :: "string \<Rightarrow> string"

section \<open>ApiService\<close>

definition strip_slash :: "string \<Rightarrow> string" where
  "strip_slash u = (if suffix ''/'' u then butlast u else u)"

definition chat_url :: "ApiConfig \<Rightarrow> string" where
  "chat_url config =
     (let u = strip_slash (baseUrl config)
      in if \<not> suffix ''/chat/completions'' u then u @ ''/chat/completions'' else u)"

definition request_headers :: "ApiConfig \<Rightarrow> (string \<times> string) list" where
  "request_headers config =
     [(''Content-Type'', ''application/json'')]
     @ (if apiKey config \<noteq> [] then [(''Authorization'', ''Bearer '' @ apiKey config)] else [])"

text \<open>
  The message of \<^verbatim>\<open>new Error(errData?.error?.message || `HTTP Error ${response.status}`)\<close>,
  where \<^verbatim>\<open>errData\<close> is the decoded body, or \<^verbatim>\<open>{}\<close> when decoding fails.
\<close>

definition http_error_message :: "runtime \<Rightarrow> response \<Rightarrow> string" where
  "http_error_message rt r =
     (let errData = (case json_result r of Inl _ \<Rightarrow> JObject [] | Inr d \<Rightarrow> d)
      in case opt_prop (opt_prop (Some errData) ''error'') ''message'' of
           None \<Rightarrow> ''HTTP Error '' @ show_nat (status r)
         | Some m \<Rightarrow>
             if truthy m then js_ToString (Number_toString rt) m
             else ''HTTP Error '' @ show_nat (status r))"

subsection \<open>generateStream\<close>

text \<open>
  The body of the \<^verbatim>\<open>for (const line of lines)\<close> loop: the chunks one line yields,
  none or one. A \<^verbatim>\<open>SyntaxError\<close> of \<^verbatim>\<open>JSON.parse\<close> and the \<^verbatim>\<open>TypeError\<close> of
  reading \<^verbatim>\<open>choices\<close> of \<^verbatim>\<open>null\<close> are caught by the inner \<^verbatim>\<open>try\<close>.
\<close>

definition process_line :: "runtime \<Rightarrow> string \<Rightarrow> StreamChunk list" where
  "process_line rt line =
     (let trimmed = trim line
      in if trimmed = [] \<or> trimmed = ''data: [DONE]'' then []
         else if prefix ''data: '' trimmed then
           (case JSON_parse rt (slice_from trimmed 6) of
              None \<Rightarrow> []
            | Some json \<Rightarrow>
                (case read_prop json ''choices'' of
                   Inl _ \<Rightarrow> []
                 | Inr choices \<Rightarrow>
                     (case read_prop json ''usage'' of
                        Inl _ \<Rightarrow> []
                      | Inr usage \<Rightarrow>
                          [\<lparr>chunk_content =
                              Some (or_empty_string
                                (opt_prop (opt_prop (opt_index0 choices) ''delta'') ''content'')),
                            chunk_usage = usage,
                            chunk_error = None\<rparr>])))
         else [])"

text \<open>\<^verbatim>\<open>lines.pop() || ''\<close> and the lines left in the array.\<close>

definition pop_last :: "string list \<Rightarrow> string \<times> string list" where
  "pop_last lines = (if lines = [] then ([], []) else (or_empty (last lines), butlast lines))"

text \<open>
  The \<^verbatim>\<open>while (true)\<close> loop over the reads, from the current buffer: the chunks
  yielded, and the message of the error thrown, if one is.
\<close>

fun read_loop :: "runtime \<Rightarrow> string \<Rightarrow> read_result list \<Rightarrow> StreamChunk list \<times> string option" where
  "read_loop rt buffer [] = ([], None)"
| "read_loop rt buffer (ReadFailure msg # rest) = ([], Some msg)"
| "read_loop rt buffer (Chunk v # rest) =
     (let (buffer', lines) = pop_last (js_split [CHR 0x0A] (buffer @ v));
          (ys, thrown) = read_loop rt buffer' rest
      in (concat (map (process_line rt) lines) @ ys, thrown))"

definition error_chunk :: "string \<Rightarrow> StreamChunk" where
  "error_chunk msg =
     \<lparr>chunk_content = None, chunk_usage = None,
      chunk_error = Some (or_else msg ''Stream error'')\<rparr>"

definition stream_request :: "ApiConfig \<Rightarrow> string \<Rightarrow> ChatMessage list \<Rightarrow> request" where
  "stream_request config model messages =
     \<lparr>url = chat_url config, req_method = ''POST'', headers = request_headers config,
      body = Some \<lparr>body_model = model, body_messages = messages,
                   body_temperature = 7 / 10, body_stream = Some True\<rparr>\<rparr>"

text \<open>The sequence of chunks the generator yields when it is run to its end.\<close>

definition generateStream ::
  "runtime \<Rightarrow> ApiConfig \<Rightarrow> string \<Rightarrow> ChatMessage list \<Rightarrow> StreamChunk list" where
  "generateStream rt config model messages =
     (case fetch rt (stream_request config model messages) of
        Rejected msg \<Rightarrow> [error_chunk msg]
      | Response r \<Rightarrow>
          if \<not> ok r then [error_chunk (http_error_message rt r)]
          else if \<not> has_body r then [error_chunk ''No response body'']
          else
            (case read_loop rt [] (reads r) of
               (ys, None) \<Rightarrow> ys
             | (ys, Some msg) \<Rightarrow> ys @ [error_chunk msg]))"

subsection \<open>generate\<close>

definition generate_request :: "ApiConfig \<Rightarrow> string \<Rightarrow> ChatMessage list \<Rightarrow> request" where
  "generate_request config model messages =
     \<lparr>url = chat_url config, req_method = ''POST'', headers = request_headers config,
      body = Some \<lparr>body_model = model, body_messages = messages,
                   body_temperature = 7 / 10, body_stream = None\<rparr>\<rparr>"

definition failed_response :: "string \<Rightarrow> CompletionResponse" where
  "failed_response msg =
     \<lparr>resp_content = JString [],
      resp_error = Some (or_else msg ''Unknown error occurred during API call.''),
      resp_usage = None\<rparr>"

text \<open>
  The result of \<^verbatim>\<open>generate\<close> and the requests it sent, appended to the
  requests sent before.
\<close>

definition generate ::
  "runtime \<Rightarrow> ApiConfig \<Rightarrow> string \<Rightarrow> ChatMessage list \<Rightarrow> request list
     \<Rightarrow> CompletionResponse \<times> request list" where
  "generate rt config model messages sent =
     (let req = generate_request config model messages;
          result =
            (case fetch rt req of
               Rejected msg \<Rightarrow> failed_response msg
             | Response r \<Rightarrow>
                 if \<not> ok r then failed_response (http_error_message rt r)
                 else
                   (case json_result r of
                      Inl msg \<Rightarrow> failed_response msg
                    | Inr data \<Rightarrow>
                        (case read_prop data ''choices'' of
                           Inl p \<Rightarrow> failed_response (null_read_message rt p)
                         | Inr choices \<Rightarrow>
                             (case read_prop data ''usage'' of
                                Inl p \<Rightarrow> failed_response (null_read_message rt p)
                              | Inr usage \<Rightarrow>
                                  \<lparr>resp_content =
                                      or_empty_string
                                        (opt_prop (opt_prop (opt_index0 choices) ''message'')
                                           ''content''),
                                    resp_error = None,
                                    resp_usage = usage\<rparr>))))
      in (result, sent @ [req]))"

subsection \<open>fetchModels\<close>

record models_result =
  fm_success :: bool
  fm_models :: "json option list option"
  fm_error :: "string option"

definition models_failure :: "string \<Rightarrow> models_result" where
  "models_failure msg = \<lparr>fm_success = False, fm_models = None, fm_error = Some msg\<rparr>"

definition models_url :: "ApiConfig \<Rightarrow> string" where
  "models_url config =
     (let u = strip_slash (baseUrl config)
      in if suffix ''/chat/completions'' u then js_replace u ''/chat/completions'' ''/models''
         else u @ ''/models'')"

text \<open>
  \<^verbatim>\<open>list.map((m: any) => m.id)\<close> with the property's name as a parameter: the
  first \<^verbatim>\<open>null\<close> element throws.
\<close>

fun map_prop :: "json list \<Rightarrow> string \<Rightarrow> string + json option list" where
  "map_prop [] name = Inr []"
| "map_prop (m # ms) name =
     (case read_prop m name of
        Inl p \<Rightarrow> Inl p
      | Inr v \<Rightarrow> (case map_prop ms name of Inl p \<Rightarrow> Inl p | Inr vs \<Rightarrow> Inr (v # vs)))"

text \<open>The part of \<^verbatim>\<open>fetchModels\<close> after \<^verbatim>\<open>const data = await response.json()\<close>.\<close>

definition models_of_body :: "runtime \<Rightarrow> json \<Rightarrow> models_result" where
  "models_of_body rt data =
     (case read_prop data ''data'' of
        Inl p \<Rightarrow> models_failure (null_read_message rt p)
      | Inr (Some (JArray ms)) \<Rightarrow>
          (case map_prop ms ''id'' of
             Inl p \<Rightarrow> models_failure (null_read_message rt p)
           | Inr ids \<Rightarrow>
               \<lparr>fm_success = True, fm_models = Some (js_sort (Number_toString rt) ids),
                fm_error = None\<rparr>)
      | Inr _ \<Rightarrow>
          (case read_prop data ''models'' of
             Inr (Some (JArray ms)) \<Rightarrow>
               (case map_prop ms ''name'' of
                  Inl p \<Rightarrow> models_failure (null_read_message rt p)
                | Inr names \<Rightarrow>
                    \<lparr>fm_success = True, fm_models = Some (js_sort (Number_toString rt) names),
                     fm_error = None\<rparr>)
           | _ \<Rightarrow> models_failure ''Unrecognized response format''))"

definition models_request :: "ApiConfig \<Rightarrow> request" where
  "models_request config =
     \<lparr>url = models_url config, req_method = ''GET'', headers = request_headers config,
      body = None\<rparr>"

definition fetchModels :: "runtime \<Rightarrow> ApiConfig \<Rightarrow> models_result" where
  "fetchModels rt config =
     (case fetch rt (models_request config) of
        Rejected msg \<Rightarrow> models_failure msg
      | Response r \<Rightarrow>
          if \<not> ok r then models_failure (''HTTP Error '' @ show_nat (status r))
          else
            (case json_result r of
               Inl msg \<Rightarrow> models_failure msg
             | Inr data \<Rightarrow> models_of_body rt data))"

subsection \<open>testConnection\<close>

record connection_result =
  tc_success :: bool
  tc_message :: string

text \<open>
  \<^verbatim>\<open>generate\<close> catches every error itself, so the \<^verbatim>\<open>catch\<close> of \<^verbatim>\<open>testConnection\<close>
  is never entered. \<^verbatim>\<open>if (result.error)\<close> holds for a present, non-empty message.
\<close>

definition testConnection ::
  "runtime \<Rightarrow> ApiConfig \<Rightarrow> request list \<Rightarrow> connection_result \<times> request list" where
  "testConnection rt config sent =
     (if length (models config) = 0 then
        (\<lparr>tc_success = False, tc_message = ''No models configured''\<rparr>, sent)
      else
        (let modelToTest = models config ! 0;
             (result, sent') =
               generate rt config modelToTest [\<lparr>msg_role = User, msg_content = ''Hi''\<rparr>] sent
         in case resp_error result of
              Some e \<Rightarrow>
                if e \<noteq> [] then (\<lparr>tc_success = False, tc_message = e\<rparr>, sent')
                else (\<lparr>tc_success = True, tc_message = ''Connected''\<rparr>, sent')
            | None \<Rightarrow> (\<lparr>tc_success = True, tc_message = ''Connected''\<rparr>, sent')))"

section \<open>Vocabulary for the statements\<close>

text \<open>The lines of a decoded text that a line feed ends, in order.\<close>

definition complete_lines :: "string \<Rightarrow> string list" where
  "complete_lines s = butlast (js_split [CHR 0x0A] s)"

text \<open>
  The frames of the specification's streaming example: two data frames whose deltas
  carry \<open>Hel\<close> and \<open>lo\<close>, the end-of-stream sentinel, and the values the two data
  payloads denote.
\<close>

definition hel_payload :: string where
  \<open>hel_payload = ''{"choices":[{"delta":{"content":"Hel"}}]}''\<close>

definition lo_payload :: string where
  \<open>lo_payload = ''{"choices":[{"delta":{"content":"lo"}}]}''\<close>

definition hello_wire :: string where
  "hello_wire =
     ''data: '' @ hel_payload @ [CHR 0x0A]
     @ ''data: '' @ lo_payload @ [CHR 0x0A]
     @ ''data: [DONE]'' @ [CHR 0x0A]"

definition delta_json :: "string \<Rightarrow> json" where
  "delta_json s =
     JObject [(''choices'', JArray [JObject [(''delta'', JObject [(''content'', JString s)])]])]"

definition content_chunk :: "string \<Rightarrow> StreamChunk" where
  "content_chunk s =
     \<lparr>chunk_content = Some (JString s), chunk_usage = None, chunk_error = None\<rparr>"

text \<open>A successful response whose body delivers the given reads.\<close>

definition streaming_response :: "read_result list \<Rightarrow> response" where
  "streaming_response rs =
     \<lparr>ok = True, status = 200, json_result = Inl [], has_body = True, reads = rs\<rparr>"

text \<open>A response that is not a stream: its status and its decoded body.\<close>

definition json_response :: "nat \<Rightarrow> string + json \<Rightarrow> response" where
  "json_response code decoded =
     \<lparr>ok = (200 \<le> code \<and> code < 300), status = code, json_result = decoded,
      has_body = True, reads = []\<rparr>"

text \<open>
  Test doubles for the concrete instances: a network that answers every request with
  the same result, and a stand-in for \<^verbatim>\<open>JSON.parse\<close> that knows the payloads of the
  examples and rejects every other text.
\<close>

definition sample_parse :: "string \<Rightarrow> json option" where
  \<open>sample_parse s =
     (if s = hel_payload then Some (delta_json ''Hel'')
      else if s = lo_payload then Some (delta_json ''lo'')
      else if s = ''{"usage":{"total_tokens":7}}'' then
        Some (JObject [(''usage'', JObject [(''total_tokens'', JNumber 7)])])
      else None)\<close>

definition stub_runtime :: "fetch_result \<Rightarrow> runtime" where
  "stub_runtime res =
     \<lparr>fetch = (\<lambda>_. res), JSON_parse = sample_parse,
      Number_toString = (\<lambda>_. ''0''), null_read_message = (\<lambda>p. ''null has no '' @ p)\<rparr>"

definition sample_config :: "string list \<Rightarrow> ApiConfig" where
  "sample_config ms =
     \<lparr>cfg_id = ''p1'', cfg_name = ''Local'', baseUrl = ''http://localhost:11434/v1/'',
      apiKey = [], models = ms\<rparr>"

section \<open>The template resolver: one pass as a scan\<close>

lemma js_split_nonempty: "sep \<noteq> [] \<Longrightarrow> js_split sep s \<noteq> []"
  by (subst js_split.simps) (auto split: list.splits)

lemma js_join_Cons_Cons: "js_join v ((c # x) # xs) = c # js_join v (x # xs)"
  by (cases xs) auto

lemma js_join_Nil_Cons: "xs \<noteq> [] \<Longrightarrow> js_join v ([] # xs) = v @ js_join v xs"
  by (cases xs) auto

lemma join_split_replace: "p \<noteq> [] \<Longrightarrow> js_join v (js_split p s) = replace_all p v s"
proof (induction p v s rule: replace_all.induct)
  case (1 p v s)
  show ?case
  proof (cases "prefix p s")
    case True
    with 1 show ?thesis
      by (subst js_split.simps, subst replace_all.simps)
         (simp add: js_join_Nil_Cons js_split_nonempty)
  next
    case False
    show ?thesis
    proof (cases s)
      case Nil
      with False 1 show ?thesis 
        by (subst js_split.simps, subst replace_all.simps) simp
    next
      case (Cons c cs)
      obtain q qs where q: "js_split p cs = q # qs"
        using js_split_nonempty[OF 1(3), of cs] by (cases "js_split p cs") auto
      from 1(2)[OF _ Cons] False 1(3) have "js_join v (js_split p cs) = replace_all p v cs" by simp
      with False Cons 1(3) q show ?thesis
        by (subst js_split.simps, subst replace_all.simps) (simp add: js_join_Cons_Cons)
    qed
  qed
qed

lemma resolve_Nil: "resolveVariables t [] = t"
  by (simp add: resolveVariables_def)

lemma resolve_Cons:
  "resolveVariables t ((k, v) # vars) =
     resolveVariables (replace_all (CHR ''{'' # k @ ''}'') v t) vars"
  by (simp add: resolveVariables_def or_empty_def join_split_replace)

lemma replace_all_Nil: "replace_all p v [] = []"
  by (subst replace_all.simps) simp

lemma replace_all_other:
  "c \<noteq> CHR ''{'' \<Longrightarrow> replace_all (CHR ''{'' # q) v (c # cs) = c # replace_all (CHR ''{'' # q) v cs"
  by (subst replace_all.simps) simp

lemma replace_all_skip:
  "CHR ''{'' \<notin> set xs \<Longrightarrow>
     replace_all (CHR ''{'' # q) v (xs @ ys) = xs @ replace_all (CHR ''{'' # q) v ys"
  by (induction xs) (auto simp: replace_all_other)

lemma replace_all_hit:
  "p \<noteq> [] \<Longrightarrow> replace_all p v (p @ rest) = v @ replace_all p v rest"
  by (subst replace_all.simps) simp

lemma replace_all_miss:
  "\<not> prefix p (c # cs) \<Longrightarrow> replace_all p v (c # cs) = c # replace_all p v cs"
  by (subst replace_all.simps) simp

lemma flat_from_mono: "flat_from True s \<Longrightarrow> flat_from b s"
  by (induction s arbitrary: b) (auto split: if_splits)

lemma flat_from_skip: "CHR ''{'' \<notin> set v \<Longrightarrow> flat_from False (v @ r) = flat_from False r"
  by (induction v) auto

lemma flat_from_after_close: "flat_from b (k @ CHR ''}'' # rest) \<Longrightarrow> flat_from False rest"
  by (induction k arbitrary: b) (auto split: if_splits)

lemma flat_from_replace_all:
  "CHR ''{'' \<notin> set v \<Longrightarrow> flat_from b s \<Longrightarrow> flat_from b (replace_all (ph k) v s)"
proof (induction "ph k" v s arbitrary: b rule: replace_all.induct)
  case (1 v s)
  show ?case
  proof (cases "prefix (ph k) s")
    case True
    then obtain rest where s: "s = ph k @ rest" by (auto simp: prefix_def)
    with "1.prems"(2) have nb: "\<not> b" and fr: "flat_from False rest"
      using flat_from_after_close[of True k rest] by (auto split: if_splits)
    have "flat_from False (replace_all (ph k) v rest)"
      using "1.hyps"(1)[of False] True s fr "1.prems"(1) by simp
    moreover have "replace_all (ph k) v s = v @ replace_all (ph k) v rest"
      using s replace_all_hit[of "ph k" v rest] by simp
    ultimately show ?thesis using nb "1.prems"(1)
      by (simp add: flat_from_skip)
  next
    case False
    show ?thesis
    proof (cases s)
      case Nil
      then show ?thesis by (simp add: replace_all_Nil)
    next
      case (Cons c cs)
      with False have r: "replace_all (ph k) v s = c # replace_all (ph k) v cs"
        by (simp add: replace_all_miss)
      from Cons False "1.hyps"(2) "1.prems"(1) have ih: "\<And>b. flat_from b cs \<Longrightarrow> flat_from b (replace_all (ph k) v cs)"
        by simp
      from "1.prems"(2) Cons show ?thesis unfolding r
        by (auto split: if_splits intro: ih)
    qed
  qed
qed

lemma sublist_skip_prefix:
  "CHR ''{'' \<notin> set v \<Longrightarrow> sublist (CHR ''{'' # q) (v @ r) \<Longrightarrow> sublist (CHR ''{'' # q) r"
  by (induction v) (auto simp: sublist_Cons_right)

lemma sublist_in_suffix: "sublist xs ys \<Longrightarrow> sublist xs (ps @ ys)"
proof -
  assume "sublist xs ys"
  then obtain a b where "ys = a @ xs @ b" by (auto simp: sublist_def)
  then have "ps @ ys = (ps @ a) @ xs @ b" by simp
  then show ?thesis unfolding sublist_def by blast
qed

lemma prefix_close_replace_all:
  "flat_from True cs \<Longrightarrow> CHR ''}'' \<notin> set k \<Longrightarrow>
   prefix (k @ ''}'') (replace_all (CHR ''{'' # q) v cs) \<Longrightarrow> prefix (k @ ''}'') cs"
proof (induction cs arbitrary: k)
  case Nil
  then show ?case by (simp add: replace_all_Nil)
next
  case (Cons d ds)
  from Cons.prems(1) have d: "d \<noteq> CHR ''{''" by (auto split: if_splits)
  then have r: "replace_all (CHR ''{'' # q) v (d # ds) = d # replace_all (CHR ''{'' # q) v ds"
    by (simp add: replace_all_other)
  show ?case
  proof (cases k)
    case Nil
    with Cons.prems(3) r show ?thesis by simp
  next
    case (Cons a k')
    with Cons.prems(2,3) r have a: "a = d" and dne: "d \<noteq> CHR ''}''"
      and p: "prefix (k' @ ''}'') (replace_all (CHR ''{'' # q) v ds)" and k': "CHR ''}'' \<notin> set k'"
      by auto
    from Cons.prems(1) d dne have "flat_from True ds" by simp
    from Cons.IH[OF this k' p] a Cons show ?thesis by simp
  qed
qed

lemma sublist_replace_all_other:
  "CHR ''{'' \<notin> set v \<Longrightarrow> CHR ''}'' \<notin> set k \<Longrightarrow> flat_from b s \<Longrightarrow>
   sublist (ph k) (replace_all (ph k2) v s) \<Longrightarrow> sublist (ph k) s"
proof (induction "ph k2" v s arbitrary: b rule: replace_all.induct)
  case (1 v s)
  show ?case
  proof (cases "prefix (ph k2) s")
    case True
    then obtain rest where s: "s = ph k2 @ rest" by (auto simp: prefix_def)
    with "1.prems"(3) have fr: "flat_from False rest"
      using flat_from_after_close[of True k2 rest] by (auto split: if_splits)
    have "replace_all (ph k2) v s = v @ replace_all (ph k2) v rest"
      using s replace_all_hit[of "ph k2" v rest] by simp
    with "1.prems"(1,4) have "sublist (ph k) (replace_all (ph k2) v rest)"
      using sublist_skip_prefix by simp
    with "1.hyps"(1)[of False] True s fr "1.prems"(1,2) have "sublist (ph k) rest" by simp
    then show ?thesis unfolding s by (rule sublist_in_suffix)
  next
    case False
    show ?thesis
    proof (cases s)
      case Nil
      with "1.prems"(4) show ?thesis by (simp add: replace_all_Nil)
    next
      case (Cons c cs)
      with False have r: "replace_all (ph k2) v s = c # replace_all (ph k2) v cs"
        by (simp add: replace_all_miss)
      from "1.prems"(4) consider (here) "prefix (ph k) (c # replace_all (ph k2) v cs)"
        | (later) "sublist (ph k) (replace_all (ph k2) v cs)"
        unfolding r by (auto simp: sublist_Cons_right)
      then show ?thesis
      proof cases
        case here
        then have c: "c = CHR ''{''" and p: "prefix (k @ ''}'') (replace_all (ph k2) v cs)" by auto
        from "1.prems"(3) Cons c have "flat_from True cs" by simp
        from prefix_close_replace_all[OF this "1.prems"(2) p] have "prefix (ph k) s"
          using Cons c by simp
        then show ?thesis by (rule prefix_imp_sublist)
      next
        case later
        from "1.prems"(3) Cons obtain b' where "flat_from b' cs" by (auto split: if_splits)
        with "1.hyps"(2)[of c cs b'] Cons False "1.prems"(1,2) later have "sublist (ph k) cs" by simp
        then show ?thesis unfolding Cons by (simp add: sublist_Cons_right)
      qed
    qed
  qed
qed

lemma no_sublist_replace_all_self:
  "CHR ''{'' \<notin> set v \<Longrightarrow> CHR ''}'' \<notin> set k \<Longrightarrow> flat_from b s \<Longrightarrow>
   \<not> sublist (ph k) (replace_all (ph k) v s)"
proof (induction "ph k" v s arbitrary: b rule: replace_all.induct)
  case (1 v s)
  show ?case
  proof (cases "prefix (ph k) s")
    case True
    then obtain rest where s: "s = ph k @ rest" by (auto simp: prefix_def)
    with "1.prems"(3) have fr: "flat_from False rest"
      using flat_from_after_close[of True k rest] by (auto split: if_splits)
    have r: "replace_all (ph k) v s = v @ replace_all (ph k) v rest"
      using s replace_all_hit[of "ph k" v rest] by simp
    from "1.hyps"(1)[of False] True s fr "1.prems"(1,2)
    have "\<not> sublist (ph k) (replace_all (ph k) v rest)" by simp
    with "1.prems"(1) show ?thesis unfolding r using sublist_skip_prefix by blast
  next
    case False
    show ?thesis
    proof (cases s)
      case Nil
      then show ?thesis by (simp add: replace_all_Nil)
    next
      case (Cons c cs)
      with False have r: "replace_all (ph k) v s = c # replace_all (ph k) v cs"
        by (simp add: replace_all_miss)
      from "1.prems"(3) Cons obtain b' where "flat_from b' cs" by (auto split: if_splits)
      with "1.hyps"(2)[of c cs b'] Cons False "1.prems"(1,2)
      have later: "\<not> sublist (ph k) (replace_all (ph k) v cs)" by simp
      have "\<not> prefix (ph k) (c # replace_all (ph k) v cs)"
      proof
        assume here: "prefix (ph k) (c # replace_all (ph k) v cs)"
        then have c: "c = CHR ''{''" and p: "prefix (k @ ''}'') (replace_all (ph k) v cs)" by auto
        from "1.prems"(3) Cons c have "flat_from True cs" by simp
        from prefix_close_replace_all[OF this "1.prems"(2) p] have "prefix (ph k) s"
          using Cons c by simp
        with False show False by simp
      qed
      with later show ?thesis unfolding r by (simp add: sublist_Cons_right)
    qed
  qed
qed

lemma flat_resolveVariables:
  "\<forall>(k, v) \<in> set vars. CHR ''{'' \<notin> set v \<Longrightarrow> flat_from False t \<Longrightarrow>
   flat_from False (resolveVariables t vars)"
proof (induction vars arbitrary: t)
  case Nil
  then show ?case by (simp add: resolve_Nil)
next
  case (Cons e vars)
  obtain k v where e: "e = (k, v)" by (cases e)
  with Cons.prems have "flat_from False (replace_all (ph k) v t)"
    by (auto intro: flat_from_replace_all)
  with Cons.IH[of "replace_all (ph k) v t"] Cons.prems(1) show ?case
    unfolding e resolve_Cons by simp
qed

lemma no_sublist_resolveVariables_keep:
  "\<forall>(k, v) \<in> set vars. CHR ''{'' \<notin> set v \<Longrightarrow> flat_from False t \<Longrightarrow> CHR ''}'' \<notin> set k \<Longrightarrow>
   \<not> sublist (ph k) t \<Longrightarrow> \<not> sublist (ph k) (resolveVariables t vars)"
proof (induction vars arbitrary: t)
  case Nil
  then show ?case by (simp add: resolve_Nil)
next
  case (Cons e vars)
  obtain k2 v where e: "e = (k2, v)" by (cases e)
  with Cons.prems have f: "flat_from False (replace_all (ph k2) v t)"
    by (auto intro: flat_from_replace_all)
  from Cons.prems e have "\<not> sublist (ph k) (replace_all (ph k2) v t)"
    using sublist_replace_all_other[of v k False t k2] by auto
  with Cons.IH[of "replace_all (ph k2) v t"] f Cons.prems(1,3) show ?case
    unfolding e resolve_Cons by simp
qed

lemma no_sublist_resolveVariables:
  "\<forall>(k, v) \<in> set vars. CHR ''{'' \<notin> set v \<Longrightarrow> flat_from False t \<Longrightarrow> CHR ''}'' \<notin> set k \<Longrightarrow>
   k \<in> fst ` set vars \<Longrightarrow> \<not> sublist (ph k) (resolveVariables t vars)"
proof (induction vars arbitrary: t)
  case Nil
  then show ?case by simp
next
  case (Cons e vars)
  obtain k2 v where e: "e = (k2, v)" by (cases e)
  with Cons.prems have f: "flat_from False (replace_all (ph k2) v t)"
    by (auto intro: flat_from_replace_all)
  from Cons.prems(1) e have v: "CHR ''{'' \<notin> set v" and rest: "\<forall>(k, v) \<in> set vars. CHR ''{'' \<notin> set v"
    by auto
  show ?case
  proof (cases "k2 = k")
    case True
    have "\<not> sublist (ph k) (replace_all (ph k) v t)"
      using no_sublist_replace_all_self[OF v Cons.prems(3,2)] .
    with no_sublist_resolveVariables_keep[OF rest _ Cons.prems(3)] f True show ?thesis
      unfolding e resolve_Cons by simp
  next
    case False
    with Cons.prems(4) e have "k \<in> fst ` set vars" by auto
    from Cons.IH[OF rest f Cons.prems(3) this] show ?thesis
      unfolding e resolve_Cons .
  qed
qed

lemma regex_matches_names:
  "k \<in> set (regex_matches s) \<Longrightarrow> k \<noteq> [] \<and> CHR ''}'' \<notin> set k"
proof (induction s rule: regex_matches.induct)
  case 1
  then show ?case by simp
next
  case (2 c cs)
  then show ?case
    by (auto simp: Let_def split: if_splits dest: set_takeWhileD)
qed

lemma set_fold_set_add: "set (fold (\<lambda>m found. set_add found m) ms acc) = set acc \<union> set ms"
  by (induction ms arbitrary: acc) (auto simp: set_add_def)

lemma set_detectedVariables:
  "set (detectedVariables sys usr) = set (regex_matches (sys @ usr))"
  by (simp add: detectedVariables_def set_fold_set_add)

lemma spec_resolve_other:
  "c \<noteq> CHR ''{'' \<Longrightarrow> spec_resolve vars (c # cs) = c # spec_resolve vars cs"
  by simp

lemma spec_resolve_open_hit:
  "takeWhile notclose cs \<noteq> [] \<Longrightarrow> dropWhile notclose cs \<noteq> [] \<Longrightarrow>
   spec_resolve vars (CHR ''{'' # cs) =
     (case map_of vars (takeWhile notclose cs) of
        Some val \<Rightarrow> val
      | None \<Rightarrow> CHR ''{'' # takeWhile notclose cs @ ''}'')
     @ spec_resolve vars (tl (dropWhile notclose cs))"
  by (simp add: Let_def)

lemma spec_resolve_open_miss:
  "\<not> (takeWhile notclose cs \<noteq> [] \<and> dropWhile notclose cs \<noteq> []) \<Longrightarrow>
   spec_resolve vars (CHR ''{'' # cs) = CHR ''{'' # spec_resolve vars cs"
  by (auto simp: Let_def)

declare spec_resolve.simps(2) [simp del]

lemma flat_from_name:
  "flat_from True cs \<Longrightarrow> CHR ''{'' \<notin> set (takeWhile notclose cs)"
  by (induction cs) (auto split: if_splits)

lemma flat_from_rest:
  "flat_from b cs \<Longrightarrow> flat_from False (tl (dropWhile notclose cs))"
  by (induction cs arbitrary: b) (auto split: if_splits)

lemma prefix_name_close:
  "CHR ''}'' \<notin> set k \<Longrightarrow> CHR ''}'' \<notin> set n \<Longrightarrow>
   prefix (k @ ''}'') (n @ CHR ''}'' # r) \<longleftrightarrow> k = n"
proof (induction k arbitrary: n)
  case Nil
  then show ?case by (cases n) auto
next
  case (Cons a k)
  then show ?case by (cases n) auto
qed

lemma split_at_close:
  "dropWhile notclose cs \<noteq> [] \<Longrightarrow>
   cs = takeWhile notclose cs @ CHR ''}'' # tl (dropWhile notclose cs)"
proof -
  assume "dropWhile notclose cs \<noteq> []"
  then obtain d ds where dd: "dropWhile notclose cs = d # ds"
    by (cases "dropWhile notclose cs") auto
  then have "d = CHR ''}''"
    using hd_dropWhile[of notclose cs] by simp
  with dd have "takeWhile notclose cs @ CHR ''}'' # tl (dropWhile notclose cs)
      = takeWhile notclose cs @ dropWhile notclose cs"
    by simp
  then show ?thesis by simp
qed

lemma no_close_prefix:
  "dropWhile notclose cs = [] \<Longrightarrow> \<not> prefix (k @ ''}'') cs"
proof
  assume d: "dropWhile notclose cs = []" and p: "prefix (k @ ''}'') cs"
  from p obtain zs where "cs = k @ CHR ''}'' # zs" by (auto simp: prefix_def)
  then have "CHR ''}'' \<in> set cs" by simp
  moreover from d have "\<forall>x \<in> set cs. x \<noteq> CHR ''}''"
    by (simp add: dropWhile_eq_Nil_conv)
  ultimately show False by blast
qed

lemma replace_all_spec_resolve:
  "flat_from False s \<Longrightarrow> k \<noteq> [] \<Longrightarrow> CHR ''}'' \<notin> set k \<Longrightarrow>
   replace_all (ph k) v s = spec_resolve [(k, v)] s"
proof (induction "[(k, v)]" s rule: spec_resolve.induct)
  case 1
  then show ?case by (simp add: replace_all_Nil)
next
  case (2 c cs)
  define name where "name = takeWhile notclose cs"
  define rest where "rest = dropWhile notclose cs"
  show ?case
  proof (cases "c = CHR ''{''")
    case False
    with "2.prems" have "flat_from False cs" by (auto split: if_splits)
    with "2.hyps"(3) False "2.prems"(2,3) show ?thesis
      by (simp add: replace_all_other spec_resolve_other)
  next
    case c: True
    with "2.prems"(1) have ft: "flat_from True cs" by simp
    show ?thesis
    proof (cases "name \<noteq> [] \<and> rest \<noteq> []")
      case True
      then have cs: "cs = name @ CHR ''}'' # tl rest"
        unfolding name_def rest_def using split_at_close by blast
      have nm: "CHR ''{'' \<notin> set name" unfolding name_def using ft by (rule flat_from_name)
      have nc: "CHR ''}'' \<notin> set name" unfolding name_def by (auto dest: set_takeWhileD)
      have fr: "flat_from False (tl rest)" unfolding rest_def using ft by (rule flat_from_rest)
      have ih: "replace_all (ph k) v (tl rest) = spec_resolve [(k, v)] (tl rest)"
        using "2.hyps"(1)[OF c refl refl] True fr "2.prems"(2,3)
        unfolding name_def rest_def by blast
      have sub: "spec_resolve [(k, v)] (c # cs) =
          (case map_of [(k, v)] name of Some val \<Rightarrow> val | None \<Rightarrow> CHR ''{'' # name @ ''}'')
          @ spec_resolve [(k, v)] (tl rest)"
        using spec_resolve_open_hit[of cs "[(k, v)]"] True c unfolding name_def rest_def by blast
      have pre: "prefix (ph k) (c # cs) \<longleftrightarrow> k = name"
        using prefix_name_close[OF "2.prems"(3) nc, of "tl rest"] c cs by simp
      show ?thesis
      proof (cases "k = name")
        case kn: True
        have "c # cs = ph k @ tl rest" using c cs kn by simp
        then have "replace_all (ph k) v (c # cs) = v @ replace_all (ph k) v (tl rest)"
          using replace_all_hit[of "ph k" v "tl rest"] by simp
        with ih kn show ?thesis unfolding sub by simp
      next
        case kn: False
        with pre have "replace_all (ph k) v (c # cs) = c # replace_all (ph k) v cs"
          by (simp add: replace_all_miss)
        also have "replace_all (ph k) v cs = name @ replace_all (ph k) v (CHR ''}'' # tl rest)"
          using replace_all_skip[OF nm, of "k @ ''}''" v "CHR ''}'' # tl rest"] cs by simp
        also have "replace_all (ph k) v (CHR ''}'' # tl rest) = CHR ''}'' # replace_all (ph k) v (tl rest)"
          by (simp add: replace_all_other)
        finally show ?thesis using ih c kn unfolding sub by simp
      qed
    next
      case bad: False
      have "\<not> prefix (ph k) (c # cs)"
      proof (cases "rest = []")
        case True
        then show ?thesis using no_close_prefix[of cs k] unfolding rest_def by simp
      next
        case False
        with bad have "name = []" by simp
        with False obtain ds where "cs = CHR ''}'' # ds"
          unfolding name_def rest_def by (cases cs) (auto split: if_splits)
        with "2.prems"(2,3) show ?thesis by (cases k) auto
      qed
      then have "replace_all (ph k) v (c # cs) = c # replace_all (ph k) v cs"
        by (simp add: replace_all_miss)
      moreover have "replace_all (ph k) v cs = spec_resolve [(k, v)] cs"
        using "2.hyps"(2)[OF c refl refl] bad flat_from_mono[OF ft] "2.prems"(2,3)
        unfolding name_def rest_def by blast
      moreover have "spec_resolve [(k, v)] (c # cs) = c # spec_resolve [(k, v)] cs"
        using spec_resolve_open_miss[of cs "[(k, v)]"] bad c unfolding name_def rest_def by blast
      ultimately show ?thesis by simp
    qed
  qed
qed

lemma spec_resolve_skip:
  "CHR ''{'' \<notin> set xs \<Longrightarrow> spec_resolve vars (xs @ ys) = xs @ spec_resolve vars ys"
  by (induction xs) (auto simp: spec_resolve_other)

lemma spec_resolve_no_close: "CHR ''}'' \<notin> set cs \<Longrightarrow> spec_resolve vars cs = cs"
proof (induction cs)
  case Nil
  then show ?case by simp
next
  case (Cons c cs)
  then have d: "dropWhile notclose cs = []" by (auto simp: dropWhile_eq_Nil_conv)
  show ?case
  proof (cases "c = CHR ''{''")
    case True
    with d Cons show ?thesis using spec_resolve_open_miss[of cs vars] by simp
  next
    case False
    with Cons show ?thesis by (simp add: spec_resolve_other)
  qed
qed

lemma spec_resolve_Nil: "spec_resolve [] s = s"
proof (induction "[] :: (string \<times> string) list" s rule: spec_resolve.induct)
  case 1
  then show ?case by simp
next
  case (2 c cs)
  define name where "name = takeWhile notclose cs"
  define rest where "rest = dropWhile notclose cs"
  show ?case
  proof (cases "c = CHR ''{''")
    case False
    with "2.hyps"(3) show ?thesis by (simp add: spec_resolve_other)
  next
    case c: True
    show ?thesis
    proof (cases "name \<noteq> [] \<and> rest \<noteq> []")
      case True
      then have cs: "cs = name @ CHR ''}'' # tl rest"
        unfolding name_def rest_def using split_at_close by blast
      have ih: "spec_resolve [] (tl rest) = tl rest"
        using "2.hyps"(1)[OF c refl refl] True unfolding name_def rest_def by blast
      have "spec_resolve [] (c # cs) = (CHR ''{'' # name @ ''}'') @ spec_resolve [] (tl rest)"
        using spec_resolve_open_hit[of cs "[]"] True c unfolding name_def rest_def by simp
      with ih c cs show ?thesis by simp
    next
      case bad: False
      have "spec_resolve [] cs = cs"
        using "2.hyps"(2)[OF c refl refl] bad unfolding name_def rest_def by blast
      moreover have "spec_resolve [] (c # cs) = c # spec_resolve [] cs"
        using spec_resolve_open_miss[of cs "[]"] bad c unfolding name_def rest_def by blast
      ultimately show ?thesis by simp
    qed
  qed
qed

lemma take_drop_name:
  "CHR ''}'' \<notin> set n \<Longrightarrow> takeWhile notclose (n @ CHR ''}'' # r) = n \<and>
     dropWhile notclose (n @ CHR ''}'' # r) = CHR ''}'' # r"
  by (induction n) auto

lemma spec_resolve_compose:
  "CHR ''{'' \<notin> set v \<Longrightarrow>
   spec_resolve vars (spec_resolve [(k, v)] s) = spec_resolve ((k, v) # vars) s"
proof (induction "[(k, v)]" s rule: spec_resolve.induct)
  case 1
  then show ?case by simp
next
  case (2 c cs)
  define name where "name = takeWhile notclose cs"
  define rest where "rest = dropWhile notclose cs"
  show ?case
  proof (cases "c = CHR ''{''")
    case False
    with "2.hyps"(3) "2.prems" show ?thesis by (simp add: spec_resolve_other)
  next
    case c: True
    show ?thesis
    proof (cases "name \<noteq> [] \<and> rest \<noteq> []")
      case True
      have nc: "CHR ''}'' \<notin> set name" unfolding name_def by (auto dest: set_takeWhileD)
      have ih: "spec_resolve vars (spec_resolve [(k, v)] (tl rest)) = spec_resolve ((k, v) # vars) (tl rest)"
        using "2.hyps"(1)[OF c refl refl] True "2.prems" unfolding name_def rest_def by blast
      have inner: "spec_resolve [(k, v)] (c # cs) =
          (case map_of [(k, v)] name of Some val \<Rightarrow> val | None \<Rightarrow> CHR ''{'' # name @ ''}'')
          @ spec_resolve [(k, v)] (tl rest)"
        using spec_resolve_open_hit[of cs "[(k, v)]"] True c unfolding name_def rest_def by blast
      have outer: "spec_resolve ((k, v) # vars) (c # cs) =
          (case map_of ((k, v) # vars) name of Some val \<Rightarrow> val | None \<Rightarrow> CHR ''{'' # name @ ''}'')
          @ spec_resolve ((k, v) # vars) (tl rest)"
        using spec_resolve_open_hit[of cs "(k, v) # vars"] True c unfolding name_def rest_def by blast
      show ?thesis
      proof (cases "name = k")
        case kn: True
        with inner have "spec_resolve [(k, v)] (c # cs) = v @ spec_resolve [(k, v)] (tl rest)" by simp
        then have "spec_resolve vars (spec_resolve [(k, v)] (c # cs)) = v @ spec_resolve ((k, v) # vars) (tl rest)"
          using spec_resolve_skip[OF "2.prems"] ih by simp
        with outer kn show ?thesis by simp
      next
        case kn: False
        define r1 where "r1 = spec_resolve [(k, v)] (tl rest)"
        from kn inner have i2: "spec_resolve [(k, v)] (c # cs) = CHR ''{'' # (name @ CHR ''}'' # r1)"
          unfolding r1_def by simp
        have td: "takeWhile notclose (name @ CHR ''}'' # r1) = name"
          "dropWhile notclose (name @ CHR ''}'' # r1) = CHR ''}'' # r1"
          using take_drop_name[OF nc, of r1] by simp_all
        have "spec_resolve vars (CHR ''{'' # (name @ CHR ''}'' # r1)) =
            (case map_of vars name of Some val \<Rightarrow> val | None \<Rightarrow> CHR ''{'' # name @ ''}'')
             @ spec_resolve vars r1"
          using spec_resolve_open_hit[of "name @ CHR ''}'' # r1" vars] True unfolding td by simp
        with i2 ih kn outer show ?thesis unfolding r1_def by simp
      qed
    next
      case bad: False
      have ih: "spec_resolve vars (spec_resolve [(k, v)] cs) = spec_resolve ((k, v) # vars) cs"
        using "2.hyps"(2)[OF c refl refl] bad "2.prems" unfolding name_def rest_def by blast
      have inner: "spec_resolve [(k, v)] (c # cs) = c # spec_resolve [(k, v)] cs"
        using spec_resolve_open_miss[of cs "[(k, v)]"] bad c unfolding name_def rest_def by blast
      have outer: "spec_resolve ((k, v) # vars) (c # cs) = c # spec_resolve ((k, v) # vars) cs"
        using spec_resolve_open_miss[of cs "(k, v) # vars"] bad c unfolding name_def rest_def by blast
      have miss': "\<not> (takeWhile notclose (spec_resolve [(k, v)] cs) \<noteq> [] \<and>
                    dropWhile notclose (spec_resolve [(k, v)] cs) \<noteq> [])"
      proof (cases "rest = []")
        case True
        then have "CHR ''}'' \<notin> set cs" unfolding rest_def by (auto simp: dropWhile_eq_Nil_conv)
        then have "spec_resolve [(k, v)] cs = cs" by (rule spec_resolve_no_close)
        with bad show ?thesis unfolding name_def rest_def by simp
      next
        case False
        with bad have "name = []" by simp
        with False obtain ds where "cs = CHR ''}'' # ds"
          unfolding name_def rest_def by (cases cs) (auto split: if_splits)
        then show ?thesis by (simp add: spec_resolve_other)
      qed
      have "spec_resolve vars (c # spec_resolve [(k, v)] cs) = c # spec_resolve vars (spec_resolve [(k, v)] cs)"
        using spec_resolve_open_miss[OF miss', of vars] c by simp
      with inner outer ih show ?thesis by simp
    qed
  qed
qed

lemma resolveVariables_spec_resolve:
  "flat_from False t \<Longrightarrow> \<forall>(k, v) \<in> set vars. k \<noteq> [] \<and> CHR ''}'' \<notin> set k \<and> CHR ''{'' \<notin> set v \<Longrightarrow>
   resolveVariables t vars = spec_resolve vars t"
proof (induction vars arbitrary: t)
  case Nil
  then show ?case by (simp add: resolve_Nil spec_resolve_Nil)
next
  case (Cons e vars)
  obtain k v where e: "e = (k, v)" by (cases e)
  from Cons.prems(2) e have k: "k \<noteq> []" "CHR ''}'' \<notin> set k" and v: "CHR ''{'' \<notin> set v"
    and rest: "\<forall>(k, v) \<in> set vars. k \<noteq> [] \<and> CHR ''}'' \<notin> set k \<and> CHR ''{'' \<notin> set v"
    by auto
  have f: "flat_from False (replace_all (ph k) v t)"
    using v Cons.prems(1) by (rule flat_from_replace_all)
  have "resolveVariables t (e # vars) = resolveVariables (replace_all (ph k) v t) vars"
    unfolding e by (rule resolve_Cons)
  also have "\<dots> = spec_resolve vars (replace_all (ph k) v t)"
    using Cons.IH[OF f rest] .
  also have "\<dots> = spec_resolve vars (spec_resolve [(k, v)] t)"
    using replace_all_spec_resolve[OF Cons.prems(1) k] by simp
  also have "\<dots> = spec_resolve ((k, v) # vars) t"
    using v by (rule spec_resolve_compose)
  finally show ?case unfolding e .
qed

section \<open>Claims about the template resolver and the placeholder detection\<close>

text \<open>
  C1, as the specification states it, fails: a placeholder whose name is not a key
  is not replaced by the empty string, it stays in the text.
\<close>

theorem resolveVariables_absent_key_counterexample:
  "resolveVariables ''Hi {name}'' [] = ''Hi {name}''
   \<and> resolveVariables ''Hi {name}'' [] \<noteq> ''Hi ''"
  by (simp add: resolveVariables_def)

text \<open>
  The entries are applied one after the other, so a value that contains a
  placeholder is resolved again by a later entry.
\<close>

lemma resolveVariables_chained:
  "resolveVariables ''{a}'' [(''a'', ''{b}''), (''b'', ''x'')] = ''x''"
  by code_simp

text \<open>
  C1 (amended): for a template with flat braces and a mapping whose keys are
  placeholder names (not empty, no closing brace) and whose values contain no opening
  brace, \<open>resolveVariables\<close> replaces each placeholder by the value of its name when
  the name is a key, and leaves it in place when it is not.
\<close>

theorem resolveVariables_refines_spec:
  assumes "flat_braces text"
    and "\<forall>(k, v) \<in> set variables. k \<noteq> [] \<and> CHR ''}'' \<notin> set k \<and> CHR ''{'' \<notin> set v"
  shows "resolveVariables text variables = spec_resolve variables text"
  using assms unfolding flat_braces_def by (rule resolveVariables_spec_resolve)

theorem resolveVariables_refines_spec_witness:
  "flat_braces ''Hi {name}''
   \<and> resolveVariables ''Hi {name}'' [(''name'', ''Bob'')] = ''Hi Bob''
   \<and> resolveVariables ''Hi {name}'' [] = ''Hi {name}''"
proof -
  have f: "flat_braces ''Hi {name}''" by (simp add: flat_braces_def)
  have v: "\<forall>(k, v) \<in> set [(''name'', ''Bob'')]. k \<noteq> [] \<and> CHR ''}'' \<notin> set k \<and> CHR ''{'' \<notin> set v"
    by simp
  have e: "\<forall>(k, v) \<in> set ([] :: (string \<times> string) list). k \<noteq> [] \<and> CHR ''}'' \<notin> set k \<and> CHR ''{'' \<notin> set v"
    by simp
  have "spec_resolve [(''name'', ''Bob'')] ''Hi {name}'' = ''Hi Bob''"
    by (simp add: spec_resolve.simps(2))
  moreover have "spec_resolve [] ''Hi {name}'' = ''Hi {name}''"
    by (simp add: spec_resolve.simps(2))
  ultimately show ?thesis
    using f resolveVariables_refines_spec [OF f v] resolveVariables_refines_spec [OF f e]
    by simp
qed

text \<open>
  C4, as the specification states it, fails: the pieces around a replaced
  placeholder can join into the placeholder again, and so can a value.
\<close>

theorem resolveVariables_residual_counterexample:
  "''a'' \<in> set (detectedVariables ''{a}{{a}a}'' [])
   \<and> ''a'' \<in> fst ` set [(''a'', [])]
   \<and> sublist ''{a}'' (resolveVariables ''{a}{{a}a}'' [(''a'', [])])"
  by code_simp

lemma resolveVariables_residual_value:
  "''a'' \<in> set (detectedVariables ''{a}'' [])
   \<and> sublist ''{a}'' (resolveVariables ''{a}'' [(''a'', ''{a}'')])"
  by code_simp

text \<open>
  C4 (amended): for a template with flat braces and a mapping whose values contain no
  opening brace, the resolved text contains no \<open>{k}\<close> for a key \<open>k\<close> that the
  detection finds in the template.
\<close>

theorem resolveVariables_no_residual:
  assumes "flat_braces text"
    and "\<forall>(k, v) \<in> set variables. CHR ''{'' \<notin> set v"
    and "k \<in> set (detectedVariables text [])"
    and "k \<in> fst ` set variables"
  shows "\<not> sublist (''{'' @ k @ ''}'') (resolveVariables text variables)"
proof -
  from assms(3) have "CHR ''}'' \<notin> set k"
    using regex_matches_names[of k "text"] by (simp add: set_detectedVariables)
  with assms(1,2,4) show ?thesis
    using no_sublist_resolveVariables[of variables "text" k] by (simp add: flat_braces_def)
qed

theorem resolveVariables_no_residual_witness:
  "flat_braces ''Hi {name}''
   \<and> ''name'' \<in> set (detectedVariables ''Hi {name}'' [])
   \<and> ''name'' \<in> fst ` set [(''name'', ''Bob'')]
   \<and> \<not> sublist (''{'' @ ''name'' @ ''}'') (resolveVariables ''Hi {name}'' [(''name'', ''Bob'')])"
proof -
  have f: "flat_braces ''Hi {name}''" by (simp add: flat_braces_def)
  have v: "\<forall>(k, v) \<in> set [(''name'', ''Bob'')]. CHR ''{'' \<notin> set v" by simp
  have d: "''name'' \<in> set (detectedVariables ''Hi {name}'' [])" by code_simp
  have k: "''name'' \<in> fst ` set [(''name'', ''Bob'')]" by simp
  from resolveVariables_no_residual [OF f v d k] f d k show ?thesis by blast
qed

text \<open>
  C10: the detection scans the concatenation of the two templates, so a placeholder
  can span the boundary: the name \<open>ab\<close> is detected for the system template \<open>{a\<close>
  and the user template \<open>b}\<close>, and in neither template alone.
\<close>

theorem detectedVariables_spans_boundary:
  "(\<forall>sys usr. detectedVariables sys usr = detectedVariables (sys @ usr) [])
   \<and> detectedVariables ''{a'' ''b}'' = [''ab'']
   \<and> detectedVariables ''{a'' [] = []
   \<and> detectedVariables [] ''b}'' = []
   \<and> set (detectedVariables ''{a'' ''b}'')
       \<noteq> set (detectedVariables ''{a'' []) \<union> set (detectedVariables [] ''b}'')"
proof -
  have a: "detectedVariables ''{a'' ''b}'' = [''ab'']" by code_simp
  have b: "detectedVariables ''{a'' [] = []" by code_simp
  have c: "detectedVariables [] ''b}'' = []" by code_simp
  have "\<forall>sys usr. detectedVariables sys usr = detectedVariables (sys @ usr) []"
    by (simp add: detectedVariables_def)
  with a b c show ?thesis by simp
qed

section \<open>The reasoning splitter\<close>

lemma indexOf_Some:
  "indexOf s p = Some i \<Longrightarrow> prefix p (drop i s) \<and> (\<forall>j<i. \<not> prefix p (drop j s))"
proof (induction s arbitrary: i)
  case Nil
  then show ?case by (auto split: if_splits)
next
  case (Cons c cs)
  show ?case
  proof (cases "prefix p (c # cs)")
    case True
    with Cons.prems show ?thesis by simp
  next
    case False
    with Cons.prems obtain i' where i': "indexOf cs p = Some i'" "i = Suc i'"
      by (auto split: option.splits)
    from Cons.IH[OF i'(1)] have ih: "prefix p (drop i' cs)" "\<forall>j<i'. \<not> prefix p (drop j cs)"
      by auto
    have "\<not> prefix p (drop j (c # cs))" if "j < i" for j
      using that False ih(2) i'(2) by (cases j) auto
    with ih(1) i'(2) show ?thesis by simp
  qed
qed

lemma indexOf_None: "indexOf s p = None \<Longrightarrow> \<not> sublist p s"
proof (induction s)
  case Nil
  then show ?case by (auto split: if_splits)
next
  case (Cons c cs)
  then show ?case by (auto simp: sublist_Cons_right split: if_splits option.splits)
qed

lemma trimStart_think: "prefix ''<think>'' s \<Longrightarrow> trimStart s = s"
  by (auto simp: prefix_def trimStart_def is_ws_def)

lemma parsedOutput_plain:
  "\<not> prefix ''<think>'' (trimStart output) \<Longrightarrow>
   parsedOutput output = \<lparr>thought = None, content = output\<rparr>"
  by (simp add: parsedOutput_def)

lemma parsedOutput_open:
  "prefix ''<think>'' output \<Longrightarrow> indexOf output ''</think>'' = None \<Longrightarrow>
   parsedOutput output = \<lparr>thought = Some (trim (drop 7 output)), content = []\<rparr>"
  by (auto simp: parsedOutput_def trimStart_think slice_from_def)

lemma parsedOutput_closed:
  "prefix ''<think>'' output \<Longrightarrow> indexOf output ''</think>'' = Some e \<Longrightarrow>
   parsedOutput output =
     \<lparr>thought = Some (trim (take (e - 7) (drop 7 output))),
      content = trim (drop (e + 8) output)\<rparr>"
  by (auto simp: parsedOutput_def trimStart_think slice_from_def slice_def)

lemma indexOf_first:
  assumes "\<not> sublist p (a @ butlast p)" and "p \<noteq> []"
  shows "indexOf (a @ p @ b) p = Some (length a)"
  using assms
proof (induction a)
  case Nil
  then show ?case by (cases p) auto
next
  case (Cons c a)
  have "\<not> prefix p ((c # a) @ p @ b)"
  proof
    assume pre: "prefix p ((c # a) @ p @ b)"
    have "length p \<le> length ((c # a) @ butlast p)" by simp
    moreover have "(c # a) @ p @ b = ((c # a) @ butlast p) @ (last p # b)"
      using Cons.prems(2) by simp
    ultimately have "prefix p ((c # a) @ butlast p)"
      using pre by (metis prefix_length_prefix prefixI)
    then have "sublist p ((c # a) @ butlast p)" by (rule prefix_imp_sublist)
    with Cons.prems(1) show False by simp
  qed
  moreover have "\<not> sublist p (a @ butlast p)"
    using Cons.prems(1) by (auto simp: sublist_Cons_right)
  ultimately show ?case using Cons.IH Cons.prems(2) by simp
qed

text \<open>
  Rule 3 for an output that starts with the open marker itself: when the close marker
  does not occur before the place where it is written, the thought is the text
  between the markers and the content is the text after the close marker, both
  trimmed.
\<close>

lemma parsedOutput_between:
  assumes "\<not> sublist ''</think>'' (''<think>'' @ mid @ ''</think'')"
  shows "parsedOutput (''<think>'' @ mid @ ''</think>'' @ post)
     = \<lparr>thought = Some (trim mid), content = trim post\<rparr>"
proof -
  have "indexOf ((''<think>'' @ mid) @ ''</think>'' @ post) ''</think>''
      = Some (length (''<think>'' @ mid))"
    using assms by (intro indexOf_first) simp_all
  then have i: "indexOf (''<think>'' @ mid @ ''</think>'' @ post) ''</think>''
      = Some (7 + length mid)"
    by simp
  have p: "prefix ''<think>'' (''<think>'' @ mid @ ''</think>'' @ post)" by simp
  define pre where "pre = ''<think>'' @ mid @ ''</think>''"
  have "length pre = 7 + length mid + 8" by (simp add: pre_def)
  moreover have "drop (length pre) (pre @ post) = post" by simp
  ultimately have "drop (7 + length mid + 8) (pre @ post) = post" by simp
  then have d: "drop (7 + length mid + 8) (''<think>'' @ mid @ ''</think>'' @ post) = post"
    by (simp add: pre_def)
  have m: "take (7 + length mid - 7) (drop 7 (''<think>'' @ mid @ ''</think>'' @ post)) = mid"
    by simp
  show ?thesis
    unfolding parsedOutput_closed[OF p i] m d ..
qed

text \<open>The examples of the specification.\<close>

lemma parsedOutput_examples:
  "parsedOutput ''<think>step one</think>Answer''
     = \<lparr>thought = Some ''step one'', content = ''Answer''\<rparr>"
  "parsedOutput ''<think>still going'' = \<lparr>thought = Some ''still going'', content = []\<rparr>"
  "parsedOutput ''Plain text'' = \<lparr>thought = None, content = ''Plain text''\<rparr>"
  by code_simp+

text \<open>
  C2: the splitter tests the marker on the text with its leading white space trimmed,
  but slices the untrimmed text from index 7. On an output that starts with white
  space the thought therefore is not the text after the open marker: for a space
  followed by \<open><think>still going\<close> it begins with the marker's last character, and so
  it does when the close marker is present.
\<close>

theorem parsedOutput_leading_whitespace:
  "prefix ''<think>'' (trimStart '' <think>still going'')
   \<and> indexOf '' <think>still going'' ''</think>'' = None
   \<and> parsedOutput '' <think>still going'' = \<lparr>thought = Some ''>still going'', content = []\<rparr>
   \<and> parsedOutput '' <think>step one</think>Answer''
       = \<lparr>thought = Some ''>step one'', content = ''Answer''\<rparr>"
  by code_simp

section \<open>The streaming client: lines and chunks\<close>

lemma split1_Nil: "js_split [n] [] = [[]]"
  by (subst js_split.simps) simp

lemma split1_hit: "js_split [n] (n # cs) = [] # js_split [n] cs"
  by (subst js_split.simps) simp

lemma split1_nonempty: "js_split [n] s \<noteq> []"
  by (subst js_split.simps) (auto split: list.splits)

lemma split1_miss:
  "c \<noteq> n \<Longrightarrow> js_split [n] (c # cs) = (c # hd (js_split [n] cs)) # tl (js_split [n] cs)"
  using split1_nonempty[of n cs]
  by (subst js_split.simps) (auto split: list.splits)

lemma split1_line: "n \<notin> set l \<Longrightarrow> js_split [n] (l @ n # rest) = l # js_split [n] rest"
  by (induction l) (auto simp: split1_hit split1_miss)

lemma split1_no_sep: "n \<notin> set l \<Longrightarrow> js_split [n] l = [l]"
  by (induction l) (auto simp: split1_Nil split1_miss)

lemma split1_append:
  "js_split [n] (s @ t) =
     butlast (js_split [n] s) @ js_split [n] (last (js_split [n] s) @ t)"
proof (induction s)
  case Nil
  then show ?case by (simp add: split1_Nil)
next
  case (Cons c s)
  obtain q qs where q: "js_split [n] s = q # qs"
    using split1_nonempty[of n s] by (cases "js_split [n] s") auto
  show ?case
  proof (cases "c = n")
    case True
    with Cons q show ?thesis by (simp add: split1_hit)
  next
    case False
    show ?thesis
    proof (cases qs)
      case Nil
      with False Cons q show ?thesis by (simp add: split1_miss)
    next
      case (Cons q' qs')
      with False Cons.IH q show ?thesis by (simp add: split1_miss)
    qed
  qed
qed

lemma complete_lines_append:
  "complete_lines (s @ t) =
     complete_lines s @ complete_lines (last (js_split [CHR 0x0A] s) @ t)"
  unfolding complete_lines_def
  by (subst split1_append) (simp add: butlast_append split1_nonempty)

lemma pop_last_split:
  "pop_last (js_split [n] s) = (last (js_split [n] s), butlast (js_split [n] s))"
  by (simp add: pop_last_def split1_nonempty or_empty_def)

lemma split1_pieces: "p \<in> set (js_split [n] s) \<Longrightarrow> n \<notin> set p"
proof (induction s arbitrary: p)
  case Nil
  then show ?case by (simp add: split1_Nil)
next
  case (Cons c s)
  obtain q qs where q: "js_split [n] s = q # qs"
    using split1_nonempty[of n s] by (cases "js_split [n] s") auto
  show ?case
  proof (cases "c = n")
    case True
    with Cons show ?thesis by (auto simp: split1_hit)
  next
    case False
    with Cons.prems q have "p = c # q \<or> p \<in> set qs" by (simp add: split1_miss)
    with Cons.IH[of q] Cons.IH[of p] q False show ?thesis by auto
  qed
qed

lemma split1_last: "n \<notin> set (last (js_split [n] s))"
  using split1_pieces[of "last (js_split [n] s)" n s] split1_nonempty[of n s] by simp

lemma complete_lines_no_sep: "CHR 0x0A \<notin> set s \<Longrightarrow> complete_lines s = []"
  by (simp add: complete_lines_def split1_no_sep)

lemma read_loop_chunks:
  "CHR 0x0A \<notin> set buffer \<Longrightarrow>
   read_loop rt buffer (map Chunk cs) =
     (concat (map (process_line rt) (complete_lines (buffer @ concat cs))), None)"
proof (induction cs arbitrary: buffer)
  case Nil
  then show ?case by (simp add: complete_lines_no_sep)
next
  case (Cons c cs)
  have "read_loop rt (last (js_split [CHR 0x0A] (buffer @ c))) (map Chunk cs) =
     (concat (map (process_line rt)
        (complete_lines (last (js_split [CHR 0x0A] (buffer @ c)) @ concat cs))), None)"
    by (rule Cons.IH) (rule split1_last)
  then show ?case
    using complete_lines_append[of "buffer @ c" "concat cs"]
    by (simp add: pop_last_split complete_lines_def)
qed


lemma complete_lines_boundary:
  assumes "before = [] \<or> last before = CHR 0x0A"
  shows "complete_lines (before @ t) = complete_lines before @ complete_lines t"
proof -
  have "last (js_split [CHR 0x0A] before) = []"
  proof (cases "before = []")
    case True
    then show ?thesis by (simp add: split1_Nil)
  next
    case False
    with assms obtain b where b: "before = b @ [CHR 0x0A]"
      by (metis append_butlast_last_id)
    have "js_split [CHR 0x0A] (b @ [CHR 0x0A]) =
        butlast (js_split [CHR 0x0A] b) @ js_split [CHR 0x0A] (last (js_split [CHR 0x0A] b) @ [CHR 0x0A])"
      by (rule split1_append)
    also have "js_split [CHR 0x0A] (last (js_split [CHR 0x0A] b) @ [CHR 0x0A]) =
        [last (js_split [CHR 0x0A] b), []]"
      using split1_line[OF split1_last, of "CHR 0x0A" b "[]"] by (simp add: split1_Nil)
    finally show ?thesis using b by simp
  qed
  then show ?thesis using complete_lines_append[of before t] by simp
qed

lemma complete_lines_line:
  "CHR 0x0A \<notin> set l \<Longrightarrow> complete_lines (l @ CHR 0x0A # t) = l # complete_lines t"
  by (simp add: complete_lines_def split1_line split1_nonempty)

lemma generateStream_chunks:
  assumes "fetch rt (stream_request config model messages) = Response r"
    and "ok r" and "has_body r" and "reads r = map Chunk cs"
  shows "generateStream rt config model messages =
     concat (map (process_line rt) (complete_lines (concat cs)))"
  using assms read_loop_chunks[of "[]" rt cs] by (simp add: generateStream_def)

lemma trim_data_line: "trim (''data: '' @ hel_payload) = ''data: '' @ hel_payload"
  "trim (''data: '' @ lo_payload) = ''data: '' @ lo_payload"
  "trim ''data: [DONE]'' = ''data: [DONE]''"
  by code_simp+

lemma hello_lines:
  "complete_lines hello_wire = [''data: '' @ hel_payload, ''data: '' @ lo_payload, ''data: [DONE]'']"
  by code_simp

lemma process_hel:
  "JSON_parse rt hel_payload = Some (delta_json ''Hel'') \<Longrightarrow>
   process_line rt (''data: '' @ hel_payload) = [content_chunk ''Hel'']"
  unfolding process_line_def trim_data_line
  by (simp add: Let_def slice_from_def) (simp add: hel_payload_def delta_json_def read_prop_def opt_index0_def opt_prop_def or_empty_string_def content_chunk_def)

lemma process_lo:
  "JSON_parse rt lo_payload = Some (delta_json ''lo'') \<Longrightarrow>
   process_line rt (''data: '' @ lo_payload) = [content_chunk ''lo'']"
  unfolding process_line_def trim_data_line
  by (simp add: Let_def slice_from_def) (simp add: lo_payload_def delta_json_def read_prop_def opt_index0_def opt_prop_def or_empty_string_def content_chunk_def)

lemma process_done: "process_line rt ''data: [DONE]'' = []"
  unfolding process_line_def trim_data_line by simp

text \<open>
  C5: the decoded text is split at line feeds and the last piece of every pass is kept
  and put before the next chunk (\<open>read_loop_chunks\<close>: the chunks yielded depend on
  the concatenation of the chunks only). So for the three frames of the example,
  delivered in chunks cut anywhere, in particular at any two boundaries, the consumer
  sees exactly the content \<open>Hel\<close>, then \<open>lo\<close>, and no error.
\<close>

theorem generateStream_hello:
  assumes "JSON_parse rt hel_payload = Some (delta_json ''Hel'')"
    and "JSON_parse rt lo_payload = Some (delta_json ''lo'')"
    and "fetch rt (stream_request config model messages) = Response r"
    and "ok r" and "has_body r"
    and "reads r = map Chunk cs" and "concat cs = hello_wire"
  shows "generateStream rt config model messages = [content_chunk ''Hel'', content_chunk ''lo'']"
proof -
  have "read_loop rt [] (map Chunk cs) =
      (concat (map (process_line rt) (complete_lines hello_wire)), None)"
    using read_loop_chunks[of "[]" rt cs] assms(7) by simp
  moreover have "concat (map (process_line rt) (complete_lines hello_wire)) =
      [content_chunk ''Hel'', content_chunk ''lo'']"
    unfolding hello_lines
    using process_hel[OF assms(1)] process_lo[OF assms(2)] process_done[of rt] by simp
  ultimately have "read_loop rt [] (reads r) = ([content_chunk ''Hel'', content_chunk ''lo''], None)"
    using assms(6) by simp
  with assms(3,4,5) show ?thesis by (simp add: generateStream_def)
qed

text \<open>Two boundaries anywhere cut a text into three chunks that concatenate to it.\<close>

lemma cut_twice: "concat [take i w, take (j - i) (drop i w), drop j w] = w" if "i \<le> j"
proof -
  have "drop j w = drop (j - i) (drop i w)" using that by simp
  then have "take (j - i) (drop i w) @ drop j w = drop i w"
    by (simp del: drop_drop)
  then show ?thesis by simp
qed

theorem generateStream_hello_witness:
  "generateStream
     (stub_runtime (Response (streaming_response
        [Chunk (take 10 hello_wire), Chunk (take 40 (drop 10 hello_wire)),
         Chunk (drop 50 hello_wire)])))
     (sample_config [''m'']) ''m'' []
   = [content_chunk ''Hel'', content_chunk ''lo'']"
proof -
  let ?cs = "[take 10 hello_wire, take 40 (drop 10 hello_wire), drop 50 hello_wire]"
  let ?r = "streaming_response (map Chunk ?cs)"
  let ?rt = "stub_runtime (Response ?r)"
  have 1: "JSON_parse ?rt hel_payload = Some (delta_json ''Hel'')"
    by (simp add: stub_runtime_def sample_parse_def)
  have 2: "JSON_parse ?rt lo_payload = Some (delta_json ''lo'')"
    by (simp add: stub_runtime_def sample_parse_def hel_payload_def lo_payload_def)
  have 3: "fetch ?rt (stream_request (sample_config [''m'']) ''m'' []) = Response ?r"
    by (simp add: stub_runtime_def)
  have 4: "ok ?r" and 5: "has_body ?r" and 6: "reads ?r = map Chunk ?cs"
    by (simp_all add: streaming_response_def)
  have 7: "concat ?cs = hello_wire"
    using cut_twice[of 10 50 hello_wire] by simp
  from generateStream_hello[OF 1 2 3 4 5 6 7] show ?thesis by simp
qed

section \<open>The streaming client: errors\<close>




lemma error_chunk_error: "chunk_error (error_chunk m) = Some (or_else m ''Stream error'')"
  "chunk_content (error_chunk m) = None" "chunk_usage (error_chunk m) = None"
  by (simp_all add: error_chunk_def)










section \<open>The streaming client: one line\<close>





text \<open>
  C7: a line with the data prefix whose payload \<^verbatim>\<open>JSON.parse\<close> rejects yields no chunk,
  and the stream goes on: the chunks yielded for a body with such a line between the
  lines before and the lines after are the chunks yielded for the body without it,
  those of the lines before followed by those of the lines after.
\<close>

theorem malformed_line_skipped:
  assumes "prefix ''data: '' (trim bad)" and "JSON_parse rt (slice_from (trim bad) 6) = None"
    and "CHR 0x0A \<notin> set bad"
    and "before = [] \<or> last before = CHR 0x0A"
    and "concat cs = before @ bad @ [CHR 0x0A] @ after"
    and "concat cs' = before @ after"
  shows "process_line rt bad = []
    \<and> generateStream (rt\<lparr>fetch := \<lambda>_. Response (streaming_response (map Chunk cs))\<rparr>)
          config model messages
      = generateStream (rt\<lparr>fetch := \<lambda>_. Response (streaming_response (map Chunk cs'))\<rparr>)
          config model messages
    \<and> generateStream (rt\<lparr>fetch := \<lambda>_. Response (streaming_response (map Chunk cs))\<rparr>)
          config model messages
      = concat (map (process_line rt) (complete_lines before))
        @ concat (map (process_line rt) (complete_lines after))"
proof -
  let ?rt = "\<lambda>xs. rt\<lparr>fetch := \<lambda>_. Response (streaming_response (map Chunk xs))\<rparr>"
  have jp: "JSON_parse (rt\<lparr>fetch := f\<rparr>) = JSON_parse rt" for f by simp
  have pl: "process_line (rt\<lparr>fetch := f\<rparr>) = process_line rt" for f
    by (rule ext) (simp only: process_line_def jp)
  have bad: "process_line rt bad = []"
    using assms(1,2) by (simp add: process_line_def Let_def)
  have g: "generateStream (?rt xs) config model messages =
      concat (map (process_line rt) (complete_lines (concat xs)))" for xs
    using generateStream_chunks[of "?rt xs" config model messages "streaming_response (map Chunk xs)" xs]
    by (simp add: streaming_response_def pl)
  have "complete_lines (concat cs) = complete_lines before @ bad # complete_lines after"
    using complete_lines_boundary[OF assms(4), of "bad @ CHR 0x0A # after"]
      complete_lines_line[OF assms(3), of after] assms(5) by simp
  moreover have "complete_lines (concat cs') = complete_lines before @ complete_lines after"
    using complete_lines_boundary[OF assms(4), of after] assms(6) by simp
  ultimately show ?thesis using bad g[of cs] g[of cs'] by simp
qed

theorem malformed_line_skipped_witness:
  "generateStream
     (stub_runtime (Rejected [])\<lparr>fetch := \<lambda>_. Response (streaming_response (map Chunk
        [''data: '' @ hel_payload @ [CHR 0x0A] @ ''data: {not'',
         '' json}'' @ [CHR 0x0A] @ ''data: '' @ lo_payload @ [CHR 0x0A]]))\<rparr>)
     (sample_config [''m'']) ''m'' []
   = [content_chunk ''Hel'', content_chunk ''lo'']"
proof -
  let ?rt = "stub_runtime (Rejected [])"
  let ?before = "''data: '' @ hel_payload @ [CHR 0x0A]"
  let ?after = "''data: '' @ lo_payload @ [CHR 0x0A]"
  let ?bad = "''data: {not json}''"
  let ?cs = "[?before @ ''data: {not'', '' json}'' @ [CHR 0x0A] @ ?after]"
  have t: "trim ?bad = ?bad" by code_simp
  have 1: "prefix ''data: '' (trim ?bad)" unfolding t by simp
  have 2: "JSON_parse ?rt (slice_from (trim ?bad) 6) = None"
    unfolding t
    by (simp add: slice_from_def stub_runtime_def sample_parse_def hel_payload_def lo_payload_def)
  have 3: "CHR 0x0A \<notin> set ?bad" by simp
  have 4: "?before = [] \<or> last ?before = CHR 0x0A" by simp
  have 5: "concat ?cs = ?before @ ?bad @ [CHR 0x0A] @ ?after" by simp
  have 6: "concat [?before, ?after] = ?before @ ?after" by simp
  have ph: "JSON_parse ?rt hel_payload = Some (delta_json ''Hel'')"
    by (simp add: stub_runtime_def sample_parse_def)
  have pl: "JSON_parse ?rt lo_payload = Some (delta_json ''lo'')"
    by (simp add: stub_runtime_def sample_parse_def hel_payload_def lo_payload_def)
  have lb: "complete_lines ?before = [''data: '' @ hel_payload]"
    using complete_lines_line[of "''data: '' @ hel_payload" "[]"]
    by (simp add: hel_payload_def complete_lines_no_sep)
  have la: "complete_lines ?after = [''data: '' @ lo_payload]"
    using complete_lines_line[of "''data: '' @ lo_payload" "[]"]
    by (simp add: lo_payload_def complete_lines_no_sep)
  note m = malformed_line_skipped[OF 1 2 3 4 5 6, of "sample_config [''m'']" "''m''" "[]"]
  have "generateStream
     (?rt\<lparr>fetch := \<lambda>_. Response (streaming_response (map Chunk ?cs))\<rparr>)
     (sample_config [''m'']) ''m'' []
    = concat (map (process_line ?rt) (complete_lines ?before))
      @ concat (map (process_line ?rt) (complete_lines ?after))"
    using m[THEN conjunct2, THEN conjunct2] .
  also have "\<dots> = [content_chunk ''Hel'', content_chunk ''lo'']"
    unfolding lb la using process_hel[OF ph] process_lo[OF pl] by simp
  finally show ?thesis by simp
qed

section \<open>The model directory client\<close>

lemma read_prop_object: "read_prop (JObject fs) name = Inr (map_of fs name)"
  by (simp add: read_prop_def)

lemma map_prop_strings:
  "list_all2 (\<lambda>m s. \<exists>fs. m = JObject fs \<and> map_of fs name = Some (JString s)) ms ids \<Longrightarrow>
   map_prop ms name = Inr (map (\<lambda>s. Some (JString s)) ids)"
  by (induction ms ids rule: list_all2_induct) (auto simp: read_prop_object)

lemma insort_key_map:
  "insort_key f (g x) (map g ys) = map g (insort_key (\<lambda>a. f (g a)) x ys)"
  by (induction ys) auto

lemma sort_key_map: "sort_key f (map g xs) = map g (sort_key (\<lambda>a. f (g a)) xs)"
  by (induction xs) (auto simp: insort_key_map)

lemma js_sort_strings:
  "js_sort num (map (\<lambda>s. Some (JString s)) ids) = map (\<lambda>s. Some (JString s)) (sort ids)"
proof -
  have a: "List.map_filter id (map (\<lambda>s. Some (JString s)) ids) = map JString ids"
    by (induction ids) (auto simp: List.map_filter_simps)
  have b: "filter (\<lambda>x. x = None) (map (\<lambda>s. Some (JString s)) ids) = []"
    by (induction ids) auto
  show ?thesis
    by (simp add: js_sort_def a b sort_key_map)
qed

lemma fetchModels_body:
  "fetch rt (models_request config) = Response r \<Longrightarrow> ok r \<Longrightarrow> json_result r = Inr data \<Longrightarrow>
   fetchModels rt config = models_of_body rt data"
  by (simp add: fetchModels_def)

lemma models_of_body_ids:
  assumes "map_of kvs ''data'' = Some (JArray ms)"
    and "list_all2 (\<lambda>m s. \<exists>fs. m = JObject fs \<and> map_of fs ''id'' = Some (JString s)) ms ids"
  shows "models_of_body rt (JObject kvs) =
     \<lparr>fm_success = True, fm_models = Some (map (\<lambda>s. Some (JString s)) (sort ids)), fm_error = None\<rparr>"
  using assms(1) map_prop_strings[OF assms(2)]
  by (simp add: models_of_body_def read_prop_object js_sort_strings)

lemma not_array_cases:
  assumes "\<forall>xs. v \<noteq> Some (JArray xs)"
  shows "(case v of Some (JArray ms) \<Rightarrow> a ms | _ \<Rightarrow> b) = b"
proof (cases v)
  case None
  then show ?thesis by simp
next
  case (Some d)
  with assms show ?thesis by (cases d) simp_all
qed

lemma models_of_body_names:
  assumes "\<forall>xs. map_of kvs ''data'' \<noteq> Some (JArray xs)"
    and "map_of kvs ''models'' = Some (JArray ms)"
    and "list_all2 (\<lambda>m s. \<exists>fs. m = JObject fs \<and> map_of fs ''name'' = Some (JString s)) ms ids"
  shows "models_of_body rt (JObject kvs) =
     \<lparr>fm_success = True, fm_models = Some (map (\<lambda>s. Some (JString s)) (sort ids)), fm_error = None\<rparr>"
  unfolding models_of_body_def read_prop_object sum.case not_array_cases[OF assms(1)]
  using assms(2) map_prop_strings[OF assms(3)]
  by (simp add: js_sort_strings)

lemma models_of_body_unrecognized:
  assumes "data \<noteq> JNull"
    and "\<forall>kvs. data = JObject kvs \<longrightarrow>
           (\<forall>xs. map_of kvs ''data'' \<noteq> Some (JArray xs)) \<and> (\<forall>xs. map_of kvs ''models'' \<noteq> Some (JArray xs))"
  shows "models_of_body rt data = models_failure ''Unrecognized response format''"
proof (cases data)
  case (JObject kvs)
  with assms(2) have d: "\<forall>xs. map_of kvs ''data'' \<noteq> Some (JArray xs)"
    and m: "\<forall>xs. map_of kvs ''models'' \<noteq> Some (JArray xs)" by auto
  show ?thesis
    unfolding JObject models_of_body_def read_prop_object sum.case not_array_cases[OF d]
      not_array_cases[OF m]
    by simp
qed (use assms(1) in \<open>simp_all add: models_of_body_def read_prop_def\<close>)

lemma models_of_body_failure:
  "\<not> fm_success (models_of_body rt data) \<Longrightarrow>
     fm_models (models_of_body rt data) = None \<and> fm_error (models_of_body rt data) \<noteq> None"
  by (auto simp: models_of_body_def models_failure_def
      split: sum.splits option.splits json.splits)

lemma fetchModels_failure:
  "\<not> fm_success (fetchModels rt config) \<Longrightarrow>
     fm_models (fetchModels rt config) = None \<and> fm_error (fetchModels rt config) \<noteq> None"
  using models_of_body_failure
  by (auto simp: fetchModels_def models_failure_def split: fetch_result.splits sum.splits)

lemma models_of_body_success:
  "fm_success (models_of_body rt data) \<Longrightarrow> fm_models (models_of_body rt data) \<noteq> None"
  by (auto simp: models_of_body_def models_failure_def
      split: sum.splits option.splits json.splits)

lemma fetchModels_success:
  "fm_success (fetchModels rt config) \<Longrightarrow> fm_models (fetchModels rt config) \<noteq> None"
  using models_of_body_success
  by (auto simp: fetchModels_def models_failure_def split: fetch_result.splits sum.splits if_splits)

text \<open>
  C8 (amended): for a decoded body of a successful response, when the \<^verbatim>\<open>data\<close> field
  is a list of objects with a string \<^verbatim>\<open>id\<close>, or the \<^verbatim>\<open>data\<close> field is not a list and
  the \<^verbatim>\<open>models\<close> field is a list of objects with a string \<^verbatim>\<open>name\<close>, the operation
  succeeds with exactly these identifiers in lexicographic order; a body other than
  \<^verbatim>\<open>null\<close> in which neither field is a list fails with
  \<^verbatim>\<open>Unrecognized response format\<close>; a failure carries no list and a success carries one.
\<close>

theorem fetchModels_shapes:
  assumes "fetch rt (models_request config) = Response r" and "ok r"
    and "json_result r = Inr data"
  shows "(data = JObject kvs \<and> map_of kvs ''data'' = Some (JArray ms)
            \<and> list_all2 (\<lambda>m s. \<exists>fs. m = JObject fs \<and> map_of fs ''id'' = Some (JString s)) ms ids
          \<longrightarrow> fetchModels rt config =
                \<lparr>fm_success = True, fm_models = Some (map (\<lambda>s. Some (JString s)) (sort ids)),
                 fm_error = None\<rparr>)
    \<and> (data = JObject kvs \<and> (\<forall>xs. map_of kvs ''data'' \<noteq> Some (JArray xs))
            \<and> map_of kvs ''models'' = Some (JArray ms)
            \<and> list_all2 (\<lambda>m s. \<exists>fs. m = JObject fs \<and> map_of fs ''name'' = Some (JString s)) ms ids
          \<longrightarrow> fetchModels rt config =
                \<lparr>fm_success = True, fm_models = Some (map (\<lambda>s. Some (JString s)) (sort ids)),
                 fm_error = None\<rparr>)
    \<and> (data \<noteq> JNull
         \<and> (\<forall>fs. data = JObject fs \<longrightarrow>
               (\<forall>xs. map_of fs ''data'' \<noteq> Some (JArray xs))
               \<and> (\<forall>xs. map_of fs ''models'' \<noteq> Some (JArray xs)))
          \<longrightarrow> fetchModels rt config =
                \<lparr>fm_success = False, fm_models = None,
                 fm_error = Some ''Unrecognized response format''\<rparr>)
    \<and> (\<not> fm_success (fetchModels rt config) \<longrightarrow>
          fm_models (fetchModels rt config) = None \<and> fm_error (fetchModels rt config) \<noteq> None)
    \<and> (fm_success (fetchModels rt config) \<longrightarrow> fm_models (fetchModels rt config) \<noteq> None)"
proof -
  have b: "fetchModels rt config = models_of_body rt data"
    using assms by (rule fetchModels_body)
  show ?thesis
  proof (intro conjI impI)
    assume "data = JObject kvs \<and> map_of kvs ''data'' = Some (JArray ms)
        \<and> list_all2 (\<lambda>m s. \<exists>fs. m = JObject fs \<and> map_of fs ''id'' = Some (JString s)) ms ids"
    then show "fetchModels rt config =
        \<lparr>fm_success = True, fm_models = Some (map (\<lambda>s. Some (JString s)) (sort ids)), fm_error = None\<rparr>"
      unfolding b using models_of_body_ids[of kvs ms ids rt] by blast
  next
    assume "data = JObject kvs \<and> (\<forall>xs. map_of kvs ''data'' \<noteq> Some (JArray xs))
        \<and> map_of kvs ''models'' = Some (JArray ms)
        \<and> list_all2 (\<lambda>m s. \<exists>fs. m = JObject fs \<and> map_of fs ''name'' = Some (JString s)) ms ids"
    then show "fetchModels rt config =
        \<lparr>fm_success = True, fm_models = Some (map (\<lambda>s. Some (JString s)) (sort ids)), fm_error = None\<rparr>"
      unfolding b using models_of_body_names[of kvs ms ids rt] by blast
  next
    assume "data \<noteq> JNull
         \<and> (\<forall>fs. data = JObject fs \<longrightarrow>
               (\<forall>xs. map_of fs ''data'' \<noteq> Some (JArray xs))
               \<and> (\<forall>xs. map_of fs ''models'' \<noteq> Some (JArray xs)))"
    then show "fetchModels rt config =
        \<lparr>fm_success = False, fm_models = None, fm_error = Some ''Unrecognized response format''\<rparr>"
      unfolding b using models_of_body_unrecognized[of data rt] by (simp add: models_failure_def)
  next
    assume "\<not> fm_success (fetchModels rt config)"
    then show "fm_models (fetchModels rt config) = None" using fetchModels_failure by blast
  next
    assume "\<not> fm_success (fetchModels rt config)"
    then show "fm_error (fetchModels rt config) \<noteq> None" using fetchModels_failure by blast
  next
    assume "fm_success (fetchModels rt config)"
    then show "fm_models (fetchModels rt config) \<noteq> None" by (rule fetchModels_success)
  qed
qed

text \<open>
  C8, as the specification states it, fails: a body whose \<^verbatim>\<open>data\<close> field is a list of
  objects without an \<^verbatim>\<open>id\<close> is not a failure, it is a success with an undefined
  identifier.
\<close>

theorem fetchModels_elements_counterexample:
  "fetchModels
     (stub_runtime (Response (json_response 200
        (Inr (JObject [(''data'', JArray [JObject [(''foo'', JNumber 1)]])])))))
     (sample_config [])
   = \<lparr>fm_success = True, fm_models = Some [None], fm_error = None\<rparr>"
  by (simp add: fetchModels_def stub_runtime_def json_response_def models_of_body_def
      read_prop_def js_sort_def List.map_filter_simps)

theorem fetchModels_shapes_witness:
  "fetchModels
     (stub_runtime (Response (json_response 200
        (Inr (JObject [(''data'', JArray [JObject [(''id'', JString ''gpt-4o-mini'')],
                                          JObject [(''id'', JString ''gpt-4o'')]])])))))
     (sample_config [])
   = \<lparr>fm_success = True,
      fm_models = Some [Some (JString ''gpt-4o''), Some (JString ''gpt-4o-mini'')],
      fm_error = None\<rparr>
   \<and> fetchModels
     (stub_runtime (Response (json_response 200
        (Inr (JObject [(''models'', JArray [JObject [(''name'', JString ''llama2'')]])])))))
     (sample_config [])
   = \<lparr>fm_success = True, fm_models = Some [Some (JString ''llama2'')], fm_error = None\<rparr>
   \<and> fetchModels
     (stub_runtime (Response (json_response 200 (Inr (JObject [(''foo'', JNumber 1)])))))
     (sample_config [])
   = \<lparr>fm_success = False, fm_models = None, fm_error = Some ''Unrecognized response format''\<rparr>"
proof -
  let ?d1 = "JObject [(''data'', JArray [JObject [(''id'', JString ''gpt-4o-mini'')],
                                          JObject [(''id'', JString ''gpt-4o'')]])]"
  let ?d2 = "JObject [(''models'', JArray [JObject [(''name'', JString ''llama2'')]])]"
  let ?d3 = "JObject [(''foo'', JNumber 1)]"
  let ?rt = "\<lambda>d. stub_runtime (Response (json_response 200 (Inr d)))"
  have f: "fetch (?rt d) (models_request (sample_config [])) = Response (json_response 200 (Inr d))" for d
    by (simp add: stub_runtime_def)
  have o: "ok (json_response 200 (Inr d))" for d :: json by (simp add: json_response_def)
  have j: "json_result (json_response 200 (Inr d)) = Inr d" for d :: json
    by (simp add: json_response_def)
  have s: "sort [''gpt-4o-mini'', ''gpt-4o''] = [''gpt-4o'', ''gpt-4o-mini'']" by code_simp
  have 1: "fetchModels (?rt ?d1) (sample_config []) =
      \<lparr>fm_success = True,
       fm_models = Some (map (\<lambda>s. Some (JString s)) (sort [''gpt-4o-mini'', ''gpt-4o''])),
       fm_error = None\<rparr>"
    using fetchModels_shapes[OF f o j, of ?d1 "[(''data'', JArray [JObject [(''id'', JString ''gpt-4o-mini'')],
        JObject [(''id'', JString ''gpt-4o'')]])]" "[JObject [(''id'', JString ''gpt-4o-mini'')],
        JObject [(''id'', JString ''gpt-4o'')]]" "[''gpt-4o-mini'', ''gpt-4o'']"]
    by simp
  have 2: "fetchModels (?rt ?d2) (sample_config []) =
      \<lparr>fm_success = True, fm_models = Some (map (\<lambda>s. Some (JString s)) (sort [''llama2''])),
       fm_error = None\<rparr>"
    using fetchModels_shapes[OF f o j, of ?d2 "[(''models'', JArray [JObject [(''name'', JString ''llama2'')]])]"
        "[JObject [(''name'', JString ''llama2'')]]" "[''llama2'']"]
    by simp
  have 3: "fetchModels (?rt ?d3) (sample_config []) =
      \<lparr>fm_success = False, fm_models = None, fm_error = Some ''Unrecognized response format''\<rparr>"
    using fetchModels_shapes[OF f o j, of ?d3] by simp
  from 1 2 3 show ?thesis unfolding s by simp
qed

section \<open>The connectivity prober\<close>

lemma failed_response_error:
  "\<exists>e. resp_error (failed_response msg) = Some e \<and> e \<noteq> []"
  by (simp add: failed_response_def or_else_def)

lemma generate_sent: "snd (generate rt config model messages sent) =
    sent @ [generate_request config model messages]"
  by (simp add: generate_def Let_def)

lemma generate_error_nonempty:
  "resp_error (fst (generate rt config model messages sent)) = Some e \<Longrightarrow> e \<noteq> []"
proof -
  let ?req = "generate_request config model messages"
  assume e: "resp_error (fst (generate rt config model messages sent)) = Some e"
  have "fst (generate rt config model messages sent) = failed_response m \<Longrightarrow> e \<noteq> []" for m
    using e by (auto simp: failed_response_def or_else_def split: if_splits)
  moreover have "(\<exists>m. fst (generate rt config model messages sent) = failed_response m)
      \<or> resp_error (fst (generate rt config model messages sent)) = None"
    by (auto simp: generate_def Let_def split: fetch_result.splits sum.splits)
  ultimately show ?thesis using e by auto
qed

text \<open>
  C9: with no model configured the probe fails with \<^verbatim>\<open>No models configured\<close> and sends
  nothing; with at least one model it sends exactly one request, the non-streaming
  generation request for the first model with the single user message \<^verbatim>\<open>Hi\<close>, and
  it reports success exactly when \<^verbatim>\<open>generate\<close> returned no error.
\<close>

theorem testConnection_probe:
  "(models config = [] \<longrightarrow>
      testConnection rt config sent
        = (\<lparr>tc_success = False, tc_message = ''No models configured''\<rparr>, sent))
   \<and> (models config \<noteq> [] \<longrightarrow>
      snd (testConnection rt config sent)
        = sent @ [generate_request config (hd (models config))
                    [\<lparr>msg_role = User, msg_content = ''Hi''\<rparr>]]
      \<and> body (generate_request config (hd (models config)) [\<lparr>msg_role = User, msg_content = ''Hi''\<rparr>])
        = Some \<lparr>body_model = hd (models config),
                body_messages = [\<lparr>msg_role = User, msg_content = ''Hi''\<rparr>],
                body_temperature = 7 / 10, body_stream = None\<rparr>
      \<and> (tc_success (fst (testConnection rt config sent)) \<longleftrightarrow>
           resp_error (fst (generate rt config (hd (models config))
              [\<lparr>msg_role = User, msg_content = ''Hi''\<rparr>] sent)) = None))"
proof (intro conjI impI)
  assume "models config = []"
  then show "testConnection rt config sent
        = (\<lparr>tc_success = False, tc_message = ''No models configured''\<rparr>, sent)"
    by (simp add: testConnection_def)
next
  let ?hi = "[\<lparr>msg_role = User, msg_content = ''Hi''\<rparr>]"
  assume ne: "models config \<noteq> []"
  then have h: "models config ! 0 = hd (models config)" by (simp add: hd_conv_nth)
  obtain res s' where g: "generate rt config (hd (models config)) ?hi sent = (res, s')"
    by (cases "generate rt config (hd (models config)) ?hi sent")
  have s': "s' = sent @ [generate_request config (hd (models config)) ?hi]"
    using generate_sent[of rt config "hd (models config)" ?hi sent] g by simp
  have en: "e \<noteq> []" if "resp_error res = Some e" for e
    using generate_error_nonempty[of rt config "hd (models config)" ?hi sent e] g that by simp
  show "snd (testConnection rt config sent) = sent @ [generate_request config (hd (models config)) ?hi]"
    using ne h g s' by (auto simp: testConnection_def Let_def split: option.splits)
  show "body (generate_request config (hd (models config)) ?hi)
        = Some \<lparr>body_model = hd (models config), body_messages = ?hi,
                body_temperature = 7 / 10, body_stream = None\<rparr>"
    by (simp add: generate_request_def)
  show "tc_success (fst (testConnection rt config sent)) \<longleftrightarrow>
           resp_error (fst (generate rt config (hd (models config)) ?hi sent)) = None"
    using ne h g en by (auto simp: testConnection_def Let_def split: option.splits)
qed

theorem testConnection_probe_witness:
  "testConnection (stub_runtime (Rejected ''Failed to fetch'')) (sample_config []) []
     = (\<lparr>tc_success = False, tc_message = ''No models configured''\<rparr>, [])
   \<and> snd (testConnection (stub_runtime (Rejected ''Failed to fetch''))
        (sample_config [''llama2'', ''phi'']) [])
     = [generate_request (sample_config [''llama2'', ''phi'']) ''llama2''
          [\<lparr>msg_role = User, msg_content = ''Hi''\<rparr>]]
   \<and> \<not> tc_success (fst (testConnection (stub_runtime (Rejected ''Failed to fetch''))
        (sample_config [''llama2'', ''phi'']) []))
   \<and> tc_success (fst (testConnection
        (stub_runtime (Response (json_response 200 (Inr (JObject [])))))
        (sample_config [''llama2'', ''phi'']) []))"
proof -
  let ?bad = "stub_runtime (Rejected ''Failed to fetch'')"
  let ?good = "stub_runtime (Response (json_response 200 (Inr (JObject []))))"
  let ?cfg = "sample_config [''llama2'', ''phi'']"
  have m0: "models (sample_config []) = []" by (simp add: sample_config_def)
  have m1: "models ?cfg \<noteq> []" "hd (models ?cfg) = ''llama2''" by (simp_all add: sample_config_def)
  have e1: "resp_error (fst (generate ?bad ?cfg ''llama2'' [\<lparr>msg_role = User, msg_content = ''Hi''\<rparr>] []))
      \<noteq> None"
    by (simp add: generate_def Let_def stub_runtime_def failed_response_def)
  have e2: "resp_error (fst (generate ?good ?cfg ''llama2'' [\<lparr>msg_role = User, msg_content = ''Hi''\<rparr>] []))
      = None"
    by (simp add: generate_def Let_def stub_runtime_def json_response_def read_prop_def)
  show ?thesis
    using testConnection_probe[of "sample_config []" ?bad "[]"]
      testConnection_probe[of ?cfg ?bad "[]"] testConnection_probe[of ?cfg ?good "[]"]
      m0 m1 e1 e2
    by simp
qed

end
